theory Spec2Isabelle
  imports Main "HOL-Library.Signed_Division" "HOL-Library.Multiset"
begin

section \<open>Common conventions\<close>

text \<open>
  The two C files \<^verbatim>\<open>producer_consumer.c\<close> and \<^verbatim>\<open>thread_pool.c\<close> each guard a
  circular buffer with one critical section and two condition variables. The buffer, its
  indices and its length are accessed only between \<^verbatim>\<open>EnterCriticalSection\<close> and the
  next \<^verbatim>\<open>LeaveCriticalSection\<close> or \<^verbatim>\<open>SleepConditionVariableCS\<close>, so such a block is
  one atomic transition of the shared state. A block that finds its wait condition true goes
  to sleep and leaves the state as it was; after waking, the thread evaluates the same
  loop condition again, which is a further run of the same block.

  C \<^verbatim>\<open>int\<close> values are modelled as \<open>int\<close>; the invariants below keep every counter
  and index between 0 and the capacity (at most 100), far from the limits of a 32-bit
  \<^verbatim>\<open>int\<close>. C's \<^verbatim>\<open>%\<close> truncates towards zero: it is \<open>smod\<close>. An array access
  outside the declared bounds is undefined behaviour in C and is a fault of the model.
\<close>

datatype fault =
    OutOfBounds     \<comment> \<open>array index outside the declared array\<close>
  | UseAfterFree    \<comment> \<open>access to the pool after \<^verbatim>\<open>free(tp)\<close>\<close>
  | LockDeleted     \<comment> \<open>\<^verbatim>\<open>EnterCriticalSection\<close> after \<^verbatim>\<open>DeleteCriticalSection\<close>\<close>
  | InvalidHandle   \<comment> \<open>wait on a handle that is uninitialised or already closed\<close>

definition array_write :: "'a list \<Rightarrow> int \<Rightarrow> 'a \<Rightarrow> fault + 'a list" where
  "array_write a i v =
     (if 0 \<le> i \<and> i < int (length a) then Inr (a[nat i := v]) else Inl OutOfBounds)"

definition array_read :: "'a list \<Rightarrow> int \<Rightarrow> fault + 'a" where
  "array_read a i =
     (if 0 \<le> i \<and> i < int (length a) then Inr (a ! nat i) else Inl OutOfBounds)"

text \<open>
  The abstraction of a circular buffer: the \<open>n\<close> cells from index \<open>first\<close> on,
  wrapping at \<open>cap\<close>, oldest first.
\<close>

definition ring_contents :: "'a list \<Rightarrow> int \<Rightarrow> int \<Rightarrow> int \<Rightarrow> 'a list" where
  "ring_contents arr cap first n =
     map (\<lambda>i. arr ! nat ((first + int i) mod cap)) [0..<nat n]"


section \<open>The bounded buffer of producer\_consumer.c\<close>

definition BUFFER_SIZE :: int where
  "BUFFER_SIZE = 5"

text \<open>
  \<^verbatim>\<open>bounded_buffer_t\<close>. The field \<^verbatim>\<open>in\<close> is \<open>in_index\<close> here (\<open>in\<close> is reserved).
  The mutex and the condition variables carry no data of their own.
\<close>

record bounded_buffer_t =
  buffer :: "int list"
  count :: int
  in_index :: int
  out :: int

definition init_buffer :: "bounded_buffer_t \<Rightarrow> bounded_buffer_t" where
  "init_buffer b = b\<lparr>count := 0, in_index := 0, out := 0\<rparr>"

text \<open>
  One run of the critical section of a blocking call: either the thread sleeps on its
  condition variable (\<open>Blocked\<close>, state unchanged) or the call completes.
\<close>

datatype 'a attempt = Blocked | Completed 'a

definition buffer_insert :: "int \<Rightarrow> bounded_buffer_t \<Rightarrow> fault + bounded_buffer_t attempt" where
  "buffer_insert item b =
     (if count b = BUFFER_SIZE then Inr Blocked
      else case array_write (buffer b) (in_index b) item of
             Inl e \<Rightarrow> Inl e
           | Inr a \<Rightarrow>
               Inr (Completed (b\<lparr>buffer := a,
                                 in_index := (in_index b + 1) smod BUFFER_SIZE,
                                 count := count b + 1\<rparr>)))"

definition buffer_remove :: "bounded_buffer_t \<Rightarrow> fault + (int \<times> bounded_buffer_t) attempt" where
  "buffer_remove b =
     (if count b = 0 then Inr Blocked
      else case array_read (buffer b) (out b) of
             Inl e \<Rightarrow> Inl e
           | Inr item \<Rightarrow>
               Inr (Completed (item, b\<lparr>out := (out b + 1) smod BUFFER_SIZE,
                                       count := count b - 1\<rparr>)))"

text \<open>
  A schedule of the buffer is the order in which producers and consumers run the critical
  section. The trace keeps the items of the completed insertions and removals.
\<close>

datatype pc_op = Insert int | Remove

record pc_trace =
  buf :: bounded_buffer_t
  inserted :: "int list"
  removed :: "int list"

definition pc_step :: "pc_op \<Rightarrow> pc_trace \<Rightarrow> fault + pc_trace" where
  "pc_step ev s =
     (case ev of
        Insert item \<Rightarrow>
          (case buffer_insert item (buf s) of
             Inl e \<Rightarrow> Inl e
           | Inr Blocked \<Rightarrow> Inr s
           | Inr (Completed b) \<Rightarrow> Inr (s\<lparr>buf := b, inserted := inserted s @ [item]\<rparr>))
      | Remove \<Rightarrow>
          (case buffer_remove (buf s) of
             Inl e \<Rightarrow> Inl e
           | Inr Blocked \<Rightarrow> Inr s
           | Inr (Completed (item, b)) \<Rightarrow> Inr (s\<lparr>buf := b, removed := removed s @ [item]\<rparr>)))"

fun pc_run :: "pc_op list \<Rightarrow> pc_trace \<Rightarrow> fault + pc_trace" where
  "pc_run [] s = Inr s"
| "pc_run (ev # evs) s = (case pc_step ev s of Inl e \<Rightarrow> Inl e | Inr s' \<Rightarrow> pc_run evs s')"

definition pc_start :: "bounded_buffer_t \<Rightarrow> pc_trace" where
  "pc_start mem = \<lparr>buf = init_buffer mem, inserted = [], removed = []\<rparr>"

definition buffer_inv :: "bounded_buffer_t \<Rightarrow> bool" where
  "buffer_inv b \<longleftrightarrow>
     int (length (buffer b)) = BUFFER_SIZE \<and>
     0 \<le> count b \<and> count b \<le> BUFFER_SIZE \<and>
     0 \<le> in_index b \<and> in_index b < BUFFER_SIZE \<and>
     0 \<le> out b \<and> out b < BUFFER_SIZE \<and>
     in_index b = (out b + count b) mod BUFFER_SIZE"

definition buffer_items :: "bounded_buffer_t \<Rightarrow> int list" where
  "buffer_items b = ring_contents (buffer b) BUFFER_SIZE (out b) (count b)"


section \<open>The thread pool of thread\_pool.c: data and critical sections\<close>

definition MAX_QUEUE_SIZE :: int where
  "MAX_QUEUE_SIZE = 100"

definition THREAD_POOL_SIZE :: nat where
  "THREAD_POOL_SIZE = 4"

text \<open>
  \<^verbatim>\<open>work_item_t\<close>: a function pointer and its argument, both opaque (the field
  \<^verbatim>\<open>function\<close> is \<open>func\<close> here). A thread handle is \<open>None\<close> for \<^verbatim>\<open>NULL\<close> or
  the index of the thread in the table of threads.
\<close>

record work_item_t =
  func :: nat
  argument :: nat

record thread_pool_t =
  queue :: "work_item_t list"
  queue_size :: int
  head :: int
  tail :: int
  worker_threads :: "nat option list"
  shutdown :: bool

text \<open>
  \<^verbatim>\<open>thread_pool_init\<close>: the argument is what \<^verbatim>\<open>malloc\<close> returned, \<open>None\<close> for
  \<^verbatim>\<open>NULL\<close>, otherwise a block of unspecified content; the two arrays are left as they are.
\<close>

definition thread_pool_init :: "thread_pool_t option \<Rightarrow> thread_pool_t option" where
  "thread_pool_init m =
     (case m of
        None \<Rightarrow> None
      | Some tp \<Rightarrow> Some (tp\<lparr>queue_size := 0, head := 0, tail := 0, shutdown := False\<rparr>))"

text \<open>
  The critical section of \<^verbatim>\<open>thread_pool_add_work\<close>: \<open>Blocked\<close> when the caller sleeps
  on \<^verbatim>\<open>queue_not_full\<close>, otherwise the value returned and the pool.
\<close>

definition thread_pool_add_work ::
  "thread_pool_t \<Rightarrow> nat \<Rightarrow> nat \<Rightarrow> fault + (bool \<times> thread_pool_t) attempt" where
  "thread_pool_add_work tp function arg =
     (if queue_size tp = MAX_QUEUE_SIZE \<and> \<not> shutdown tp then Inr Blocked
      else if shutdown tp then Inr (Completed (False, tp))
      else case array_write (queue tp) (tail tp) \<lparr>func = function, argument = arg\<rparr> of
             Inl e \<Rightarrow> Inl e
           | Inr q \<Rightarrow>
               Inr (Completed (True, tp\<lparr>queue := q,
                                        tail := (tail tp + 1) smod MAX_QUEUE_SIZE,
                                        queue_size := queue_size tp + 1\<rparr>)))"

text \<open>
  The critical section of one iteration of \<^verbatim>\<open>worker_thread\<close>: \<open>Blocked\<close> when the
  worker sleeps on \<^verbatim>\<open>queue_not_empty\<close>, \<open>Exit_loop\<close> at the \<^verbatim>\<open>break\<close>, otherwise
  the work item taken from the head of the queue.
\<close>

datatype worker_next = Exit_loop | Execute work_item_t

definition worker_thread_cs :: "thread_pool_t \<Rightarrow> fault + (worker_next \<times> thread_pool_t) attempt" where
  "worker_thread_cs tp =
     (if queue_size tp = 0 \<and> \<not> shutdown tp then Inr Blocked
      else if shutdown tp \<and> queue_size tp = 0 then Inr (Completed (Exit_loop, tp))
      else case array_read (queue tp) (head tp) of
             Inl e \<Rightarrow> Inl e
           | Inr work \<Rightarrow>
               Inr (Completed (Execute work,
                               tp\<lparr>head := (head tp + 1) smod MAX_QUEUE_SIZE,
                                  queue_size := queue_size tp - 1\<rparr>)))"

text \<open>The critical section of \<^verbatim>\<open>thread_pool_shutdown\<close> sets the flag.\<close>

definition thread_pool_shutdown_cs :: "thread_pool_t \<Rightarrow> thread_pool_t" where
  "thread_pool_shutdown_cs tp = tp\<lparr>shutdown := True\<rparr>"

definition pool_inv :: "thread_pool_t \<Rightarrow> bool" where
  "pool_inv tp \<longleftrightarrow>
     int (length (queue tp)) = MAX_QUEUE_SIZE \<and>
     0 \<le> queue_size tp \<and> queue_size tp \<le> MAX_QUEUE_SIZE \<and>
     0 \<le> head tp \<and> head tp < MAX_QUEUE_SIZE \<and>
     0 \<le> tail tp \<and> tail tp < MAX_QUEUE_SIZE \<and>
     tail tp = (head tp + queue_size tp) mod MAX_QUEUE_SIZE"

definition queue_items :: "thread_pool_t \<Rightarrow> work_item_t list" where
  "queue_items tp = ring_contents (queue tp) MAX_QUEUE_SIZE (head tp) (queue_size tp)"

text \<open>
  The queue seen through its three operations: push is \<^verbatim>\<open>thread_pool_add_work\<close>, pop
  is the dequeue of \<^verbatim>\<open>worker_thread\<close>, close is the flag set by
  \<^verbatim>\<open>thread_pool_shutdown\<close>. A schedule lists the critical sections in the order they
  run; each yields one observation.
\<close>

datatype tp_op = Push nat nat | Pop | Close

datatype tp_obs =
    Pushed work_item_t | Push_rejected | Push_blocked
  | Popped work_item_t | Pop_closed | Pop_blocked
  | Close_done

definition tp_step :: "tp_op \<Rightarrow> thread_pool_t \<Rightarrow> fault + (tp_obs \<times> thread_pool_t)" where
  "tp_step ev tp =
     (case ev of
        Push f a \<Rightarrow>
          (case thread_pool_add_work tp f a of
             Inl e \<Rightarrow> Inl e
           | Inr Blocked \<Rightarrow> Inr (Push_blocked, tp)
           | Inr (Completed (ok, tp')) \<Rightarrow>
               Inr (if ok then Pushed \<lparr>func = f, argument = a\<rparr> else Push_rejected, tp'))
      | Pop \<Rightarrow>
          (case worker_thread_cs tp of
             Inl e \<Rightarrow> Inl e
           | Inr Blocked \<Rightarrow> Inr (Pop_blocked, tp)
           | Inr (Completed (Exit_loop, tp')) \<Rightarrow> Inr (Pop_closed, tp')
           | Inr (Completed (Execute work, tp')) \<Rightarrow> Inr (Popped work, tp'))
      | Close \<Rightarrow> Inr (Close_done, thread_pool_shutdown_cs tp))"

fun tp_run :: "tp_op list \<Rightarrow> thread_pool_t \<Rightarrow> fault + (tp_obs list \<times> thread_pool_t)" where
  "tp_run [] tp = Inr ([], tp)"
| "tp_run (ev # evs) tp =
     (case tp_step ev tp of
        Inl e \<Rightarrow> Inl e
      | Inr (ob, tp') \<Rightarrow>
          (case tp_run evs tp' of
             Inl e \<Rightarrow> Inl e
           | Inr (obs, tp'') \<Rightarrow> Inr (ob # obs, tp'')))"

fun pushed_items :: "tp_obs list \<Rightarrow> work_item_t list" where
  "pushed_items [] = []"
| "pushed_items (Pushed w # obs) = w # pushed_items obs"
| "pushed_items (_ # obs) = pushed_items obs"

fun popped_items :: "tp_obs list \<Rightarrow> work_item_t list" where
  "popped_items [] = []"
| "popped_items (Popped w # obs) = w # popped_items obs"
| "popped_items (_ # obs) = popped_items obs"


section \<open>The thread pool of thread\_pool.c: threads\<close>

text \<open>
  The threads of the process are a table indexed by thread handle. A thread is either
  outside the pool's functions (\<open>Idle\<close>) or at one of the points where a function of
  \<^verbatim>\<open>thread_pool.c\<close> can be suspended:
  \<^item> \<open>In_add_work f a\<close>: in \<^verbatim>\<open>thread_pool_add_work\<close>, before the test of the wait loop
    (on entry, or woken from the sleep);
  \<^item> \<open>Sleep_add_work f a\<close>: asleep in \<^verbatim>\<open>SleepConditionVariableCS(&tp->queue_not_full, ...)\<close>;
  \<^item> \<open>In_start\<close>: entering \<^verbatim>\<open>thread_pool_start\<close>;
  \<^item> \<open>Join_start j i\<close>: in the failure branch of \<^verbatim>\<open>thread_pool_start\<close>, creation
    number \<open>i\<close> failed, at the head of the loop over \<open>j\<close>;
  \<^item> \<open>In_shutdown\<close>: in \<^verbatim>\<open>thread_pool_shutdown\<close> with a pointer that is not \<^verbatim>\<open>NULL\<close>;
  \<^item> \<open>Join_shutdown i\<close>: at the head of the loop over the worker handles;
  \<^item> \<open>In_worker\<close>: in \<^verbatim>\<open>worker_thread\<close>, before the test of the wait loop;
  \<^item> \<open>Sleep_worker\<close>: asleep in \<^verbatim>\<open>SleepConditionVariableCS(&tp->queue_not_empty, ...)\<close>;
  \<^item> \<open>Run_worker work\<close>: after \<^verbatim>\<open>LeaveCriticalSection\<close>, before \<^verbatim>\<open>work.function(work.argument)\<close>;
  \<^item> \<open>Exit_worker\<close>: \<^verbatim>\<open>worker_thread\<close> has returned.
\<close>

datatype tstate =
    Idle
  | In_add_work nat nat
  | Sleep_add_work nat nat
  | In_start
  | Join_start nat nat
  | In_shutdown
  | Join_shutdown nat
  | In_worker
  | Sleep_worker
  | Run_worker work_item_t
  | Exit_worker

datatype cond_var = queue_not_empty | queue_not_full

fun sleeps_on :: "cond_var \<Rightarrow> tstate \<Rightarrow> bool" where
  "sleeps_on cv (Sleep_add_work f a) = (cv = queue_not_full)"
| "sleeps_on cv Sleep_worker = (cv = queue_not_empty)"
| "sleeps_on cv _ = False"

text \<open>A woken thread returns from the sleep to the test of its wait loop.\<close>

fun woken :: "tstate \<Rightarrow> tstate" where
  "woken (Sleep_add_work f a) = In_add_work f a"
| "woken Sleep_worker = In_worker"
| "woken s = s"

text \<open>
  The condition variables of the operating system. \<^verbatim>\<open>WakeAllConditionVariable\<close> wakes
  every thread asleep on the variable; \<^verbatim>\<open>WakeConditionVariable\<close> wakes one of them if
  there is any, the one the system picks: number \<open>pick mod n\<close> of the \<open>n\<close> sleepers.
\<close>

definition WakeAllConditionVariable :: "cond_var \<Rightarrow> tstate list \<Rightarrow> tstate list" where
  "WakeAllConditionVariable cv ths = map (\<lambda>s. if sleeps_on cv s then woken s else s) ths"

definition sleepers :: "cond_var \<Rightarrow> tstate list \<Rightarrow> nat list" where
  "sleepers cv ths = filter (\<lambda>t. sleeps_on cv (ths ! t)) [0..<length ths]"

definition WakeConditionVariable :: "cond_var \<Rightarrow> nat \<Rightarrow> tstate list \<Rightarrow> tstate list" where
  "WakeConditionVariable cv pick ths =
     (let ws = sleepers cv ths
      in if ws = [] then ths
         else ths[ws ! (pick mod length ws) := woken (ths ! (ws ! (pick mod length ws)))])"

text \<open>
  The state of the process: the pool object, whether it has been freed and whether its
  lock has been deleted, the threads, the handles closed so far, and the history of what
  the calls returned and of the work items the workers executed.
\<close>

record config =
  pool :: thread_pool_t
  freed :: bool
  lock_deleted :: bool
  threads :: "tstate list"
  closed_handles :: "nat list"
  add_work_true :: "work_item_t list"
  add_work_false :: "work_item_t list"
  start_returns :: "bool list"
  executed :: "work_item_t list"

definition set_thread :: "nat \<Rightarrow> tstate \<Rightarrow> config \<Rightarrow> config" where
  "set_thread t s c = c\<lparr>threads := (threads c)[t := s]\<rparr>"

text \<open>\<^verbatim>\<open>EnterCriticalSection(&tp->queue_lock)\<close> needs a live pool and a live lock.\<close>

definition enter_fault :: "config \<Rightarrow> fault option" where
  "enter_fault c =
     (if freed c then Some UseAfterFree
      else if lock_deleted c then Some LockDeleted
      else None)"

definition add_work_block :: "nat \<Rightarrow> nat \<Rightarrow> nat \<Rightarrow> nat \<Rightarrow> config \<Rightarrow> fault + config" where
  "add_work_block t f a pick c =
     (case enter_fault c of
        Some e \<Rightarrow> Inl e
      | None \<Rightarrow>
          (case thread_pool_add_work (pool c) f a of
             Inl e \<Rightarrow> Inl e
           | Inr Blocked \<Rightarrow> Inr (set_thread t (Sleep_add_work f a) c)
           | Inr (Completed (ok, tp')) \<Rightarrow>
               if ok then
                 Inr (c\<lparr>pool := tp',
                        threads := WakeConditionVariable queue_not_empty pick
                                     ((threads c)[t := Idle]),
                        add_work_true := add_work_true c @ [\<lparr>func = f, argument = a\<rparr>]\<rparr>)
               else
                 Inr (c\<lparr>threads := (threads c)[t := Idle],
                        add_work_false := add_work_false c @ [\<lparr>func = f, argument = a\<rparr>]\<rparr>)))"

definition worker_block :: "nat \<Rightarrow> nat \<Rightarrow> config \<Rightarrow> fault + config" where
  "worker_block t pick c =
     (case enter_fault c of
        Some e \<Rightarrow> Inl e
      | None \<Rightarrow>
          (case worker_thread_cs (pool c) of
             Inl e \<Rightarrow> Inl e
           | Inr Blocked \<Rightarrow> Inr (set_thread t Sleep_worker c)
           | Inr (Completed (Exit_loop, tp')) \<Rightarrow> Inr (set_thread t Exit_worker c)
           | Inr (Completed (Execute work, tp')) \<Rightarrow>
               Inr (c\<lparr>pool := tp',
                      threads := WakeConditionVariable queue_not_full pick
                                   ((threads c)[t := Run_worker work])\<rparr>)))"

text \<open>\<^verbatim>\<open>work.function(work.argument)\<close>, then back to the head of the loop.\<close>

definition worker_execute :: "nat \<Rightarrow> work_item_t \<Rightarrow> config \<Rightarrow> config" where
  "worker_execute t work c =
     c\<lparr>threads := (threads c)[t := In_worker], executed := executed c @ [work]\<rparr>"


text \<open>
  \<^verbatim>\<open>WaitForSingleObject(h, INFINITE)\<close> followed by \<^verbatim>\<open>CloseHandle(h)\<close>: the caller
  waits until the thread of the handle has returned. A handle that is \<^verbatim>\<open>NULL\<close>,
  uninitialised or already closed is a fault.
\<close>

fun is_worker :: "tstate \<Rightarrow> bool" where
  "is_worker In_worker = True"
| "is_worker Sleep_worker = True"
| "is_worker (Run_worker work) = True"
| "is_worker Exit_worker = True"
| "is_worker _ = False"

definition join_handle :: "nat option \<Rightarrow> config \<Rightarrow> fault + config attempt" where
  "join_handle h c =
     (case h of
        None \<Rightarrow> Inl InvalidHandle
      | Some w \<Rightarrow>
          if w < length (threads c) \<and> is_worker (threads c ! w) \<and> w \<notin> set (closed_handles c)
          then (if threads c ! w = Exit_worker
                then Inr (Completed (c\<lparr>closed_handles := closed_handles c @ [w]\<rparr>))
                else Inr Blocked)
          else Inl InvalidHandle)"

text \<open>
  The creation loop of \<^verbatim>\<open>thread_pool_start\<close> over a list of indices.
  \<^verbatim>\<open>CreateThread\<close> succeeds for the indices below \<open>k\<close> and returns \<^verbatim>\<open>NULL\<close> at
  index \<open>k\<close>; the result names the index of the failed creation, if any. The index is
  below \<^verbatim>\<open>THREAD_POOL_SIZE\<close>, the declared size of \<^verbatim>\<open>worker_threads\<close>.
\<close>

fun create_workers :: "nat list \<Rightarrow> nat \<Rightarrow> config \<Rightarrow> nat option \<times> config" where
  "create_workers [] k c = (None, c)"
| "create_workers (i # js) k c =
     (if i < k then
        create_workers js k
          (c\<lparr>pool := (pool c)\<lparr>worker_threads :=
                       (worker_threads (pool c))[i := Some (length (threads c))]\<rparr>,
             threads := threads c @ [In_worker]\<rparr>)
      else
        (Some i, c\<lparr>pool := (pool c)\<lparr>worker_threads := (worker_threads (pool c))[i := None]\<rparr>\<rparr>))"

text \<open>
  \<^verbatim>\<open>thread_pool_start\<close> up to its return or, in the failure branch, up to the first
  wait. It takes no lock. The creation loop is one block here: what the workers created
  so far do in between touches neither the table of handles nor the creations to come. The
  store \<^verbatim>\<open>tp->shutdown = true\<close> of the failure branch is the one access to the shared
  fields outside the critical section; it is a block of its own kind, taken together with
  the \<^verbatim>\<open>WakeAllConditionVariable\<close> that follows it.
\<close>

definition start_block :: "nat \<Rightarrow> nat \<Rightarrow> config \<Rightarrow> fault + config" where
  "start_block t k c =
     (if freed c then Inl UseAfterFree
      else case create_workers [0..<THREAD_POOL_SIZE] k c of
             (None, c1) \<Rightarrow>
               Inr (c1\<lparr>threads := (threads c1)[t := Idle],
                       start_returns := start_returns c1 @ [True]\<rparr>)
           | (Some i, c1) \<Rightarrow>
               Inr (c1\<lparr>pool := (pool c1)\<lparr>shutdown := True\<rparr>,
                       threads := WakeAllConditionVariable queue_not_empty
                                    ((threads c1)[t := Join_start 0 i])\<rparr>))"

definition start_join :: "nat \<Rightarrow> nat \<Rightarrow> nat \<Rightarrow> config \<Rightarrow> fault + config" where
  "start_join t j i c =
     (if freed c then Inl UseAfterFree
      else if j < i then
        (case array_read (worker_threads (pool c)) (int j) of
           Inl e \<Rightarrow> Inl e
         | Inr h \<Rightarrow>
             (case join_handle h c of
                Inl e \<Rightarrow> Inl e
              | Inr Blocked \<Rightarrow> Inr c
              | Inr (Completed c1) \<Rightarrow> Inr (set_thread t (Join_start (Suc j) i) c1)))
      else
        Inr (c\<lparr>lock_deleted := True,
               threads := (threads c)[t := Idle],
               start_returns := start_returns c @ [False]\<rparr>))"

definition shutdown_block :: "nat \<Rightarrow> config \<Rightarrow> fault + config" where
  "shutdown_block t c =
     (case enter_fault c of
        Some e \<Rightarrow> Inl e
      | None \<Rightarrow>
          Inr (c\<lparr>pool := thread_pool_shutdown_cs (pool c),
                 threads := WakeAllConditionVariable queue_not_empty
                              ((threads c)[t := Join_shutdown 0])\<rparr>))"

text \<open>
  The loop over the worker handles and, after it, \<^verbatim>\<open>DeleteCriticalSection\<close> and
  \<^verbatim>\<open>free(tp)\<close>.
\<close>

definition shutdown_join :: "nat \<Rightarrow> nat \<Rightarrow> config \<Rightarrow> fault + config" where
  "shutdown_join t i c =
     (if freed c then Inl UseAfterFree
      else if i < THREAD_POOL_SIZE then
        (case array_read (worker_threads (pool c)) (int i) of
           Inl e \<Rightarrow> Inl e
         | Inr h \<Rightarrow>
             (case join_handle h c of
                Inl e \<Rightarrow> Inl e
              | Inr Blocked \<Rightarrow> Inr c
              | Inr (Completed c1) \<Rightarrow> Inr (set_thread t (Join_shutdown (Suc i)) c1)))
      else
        Inr (c\<lparr>lock_deleted := True, freed := True, threads := (threads c)[t := Idle]\<rparr>))"

text \<open>
  The next atomic block of thread \<open>t\<close>. The number \<open>k\<close> settles what the operating
  system chooses in the block: the sleeper woken by \<^verbatim>\<open>WakeConditionVariable\<close>, or how
  many calls of \<^verbatim>\<open>CreateThread\<close> succeed. A thread that is idle, asleep or finished does
  nothing.
\<close>

definition thread_step :: "nat \<Rightarrow> nat \<Rightarrow> config \<Rightarrow> fault + config" where
  "thread_step t k c =
     (if t < length (threads c) then
        (case threads c ! t of
           Idle \<Rightarrow> Inr c
         | In_add_work f a \<Rightarrow> add_work_block t f a k c
         | Sleep_add_work f a \<Rightarrow> Inr c
         | In_start \<Rightarrow> start_block t k c
         | Join_start j i \<Rightarrow> start_join t j i c
         | In_shutdown \<Rightarrow> shutdown_block t c
         | Join_shutdown i \<Rightarrow> shutdown_join t i c
         | In_worker \<Rightarrow> worker_block t k c
         | Sleep_worker \<Rightarrow> Inr c
         | Run_worker work \<Rightarrow> Inr (worker_execute t work c)
         | Exit_worker \<Rightarrow> Inr c)
      else Inr c)"

text \<open>
  The calls an idle thread can make. \<^verbatim>\<open>thread_pool_shutdown\<close> returns at once for
  \<^verbatim>\<open>NULL\<close>; the other pointer value is the address of the pool.
\<close>

datatype pool_ptr = NULL | Pool_ptr

datatype api_call = Add_work nat nat | Start | Shutdown pool_ptr

definition call_block :: "nat \<Rightarrow> api_call \<Rightarrow> config \<Rightarrow> config" where
  "call_block t call c =
     (if t < length (threads c) \<and> threads c ! t = Idle then
        (case call of
           Add_work f a \<Rightarrow> set_thread t (In_add_work f a) c
         | Start \<Rightarrow> set_thread t In_start c
         | Shutdown NULL \<Rightarrow> c
         | Shutdown Pool_ptr \<Rightarrow> set_thread t In_shutdown c)
      else c)"

text \<open>
  An event is a call by an idle thread, the next block of a thread, or a spurious wakeup
  of a sleeping thread (condition variables allow them, hence the wait loops).
\<close>

datatype event = Call nat api_call | Step nat nat | Spurious nat

definition step :: "event \<Rightarrow> config \<Rightarrow> fault + config" where
  "step ev c =
     (case ev of
        Call t call \<Rightarrow> Inr (call_block t call c)
      | Step t k \<Rightarrow> thread_step t k c
      | Spurious t \<Rightarrow>
          Inr (if t < length (threads c) then set_thread t (woken (threads c ! t)) c else c))"

fun run :: "event list \<Rightarrow> config \<Rightarrow> fault + config" where
  "run [] c = Inr c"
| "run (ev # evs) c = (case step ev c of Inl e \<Rightarrow> Inl e | Inr c' \<Rightarrow> run evs c')"

text \<open>The process after \<^verbatim>\<open>thread_pool_init\<close> returned \<open>tp\<close>, with \<open>n\<close> idle threads.\<close>

definition boot :: "nat \<Rightarrow> thread_pool_t \<Rightarrow> config" where
  "boot n tp =
     \<lparr>pool = tp, freed = False, lock_deleted = False, threads = replicate n Idle,
      closed_handles = [], add_work_true = [], add_work_false = [], start_returns = [],
      executed = []\<rparr>"

text \<open>The work items held by workers between the dequeue and the call.\<close>

fun holding :: "tstate \<Rightarrow> work_item_t list" where
  "holding (Run_worker work) = [work]"
| "holding _ = []"

definition in_flight :: "tstate list \<Rightarrow> work_item_t list" where
  "in_flight ths = concat (map holding ths)"

text \<open>All workers have returned, and there is at least one.\<close>

definition workers_done :: "config \<Rightarrow> bool" where
  "workers_done c \<longleftrightarrow>
     Exit_worker \<in> set (threads c) \<and>
     list_all (\<lambda>s. is_worker s \<longrightarrow> s = Exit_worker) (threads c)"

section \<open>Invariants of the histories\<close>

text \<open>
  The items inserted are those removed followed by those in the buffer; every work item
  for which \<^verbatim>\<open>thread_pool_add_work\<close> returned true is queued, held by a worker or
  executed, and a worker has returned only if the pool is shut down and the queue empty.
\<close>

definition pc_inv :: "pc_trace \<Rightarrow> bool" where
  "pc_inv s \<longleftrightarrow> buffer_inv (buf s) \<and> inserted s = removed s @ buffer_items (buf s)"

definition cinv :: "config \<Rightarrow> bool" where
  "cinv c \<longleftrightarrow>
     pool_inv (pool c) \<and>
     mset (add_work_true c)
       = mset (executed c) + mset (in_flight (threads c)) + mset (queue_items (pool c)) \<and>
     (Exit_worker \<in> set (threads c) \<longrightarrow> shutdown (pool c) \<and> queue_size (pool c) = 0)"


section \<open>Concrete memory\<close>

text \<open>
  The global \<^verbatim>\<open>buffer\<close> of \<^verbatim>\<open>producer_consumer.c\<close> has static storage and starts
  zeroed. The block \<^verbatim>\<open>malloc\<close> returns to \<^verbatim>\<open>thread_pool_init\<close> has unspecified
  content; the zeroed block is one instance.
\<close>

definition zero_buffer :: bounded_buffer_t where
  "zero_buffer = \<lparr>buffer = [0, 0, 0, 0, 0], count = 0, in_index = 0, out = 0\<rparr>"

definition zero_block :: thread_pool_t where
  "zero_block =
     \<lparr>queue = replicate 100 \<lparr>func = 0, argument = 0\<rparr>, queue_size = 0, head = 0, tail = 0,
      worker_threads = [None, None, None, None], shutdown = False\<rparr>"

text \<open>
  A full queue: thread 0 has started the pool and submitted 104 work items, the four
  workers (threads 2 to 5) each hold one of the first four and are executing it, the other
  100 fill the queue, and thread 1 then called \<^verbatim>\<open>thread_pool_add_work\<close> and sleeps on
  \<^verbatim>\<open>queue_not_full\<close>.
\<close>

definition jammed :: config where
  "jammed =
     \<lparr>pool = \<lparr>queue = replicate 100 \<lparr>func = 0, argument = 0\<rparr>, queue_size = 100,
              head = 4, tail = 4,
              worker_threads = [Some 2, Some 3, Some 4, Some 5], shutdown = False\<rparr>,
      freed = False, lock_deleted = False,
      threads = [Idle, Sleep_add_work 9 9,
                 Run_worker \<lparr>func = 0, argument = 0\<rparr>, Run_worker \<lparr>func = 0, argument = 0\<rparr>,
                 Run_worker \<lparr>func = 0, argument = 0\<rparr>, Run_worker \<lparr>func = 0, argument = 0\<rparr>],
      closed_handles = [],
      add_work_true = replicate 104 \<lparr>func = 0, argument = 0\<rparr>,
      add_work_false = [], start_returns = [True], executed = []\<rparr>"

text \<open>
  A pool that has been started, on which thread 0 calls \<^verbatim>\<open>thread_pool_start\<close> again;
  and a pool with one queued work item.
\<close>

definition restarting :: config where
  "restarting =
     \<lparr>pool = zero_block\<lparr>worker_threads := [Some 1, Some 2, Some 3, Some 4]\<rparr>,
      freed = False, lock_deleted = False,
      threads = [In_start, In_worker, In_worker, In_worker, In_worker],
      closed_handles = [], add_work_true = [], add_work_false = [],
      start_returns = [True], executed = []\<rparr>"

definition one_job_pool :: thread_pool_t where
  "one_job_pool =
     zero_block\<lparr>queue := (queue zero_block)[0 := \<lparr>func = 7, argument = 7\<rparr>],
                queue_size := 1, tail := 1\<rparr>"

text \<open>
  The schedule that leads a fresh process with two idle threads into \<open>jammed\<close>, and the
  states on the way, with \<open>m\<close> items in the queue.
\<close>

definition jam_events :: "event list" where
  "jam_events =
     [Call 0 Start, Step 0 4] @
     concat (map (\<lambda>w. [Call 0 (Add_work 0 0), Step 0 0, Step w 0]) [2, 3, 4, 5]) @
     concat (replicate 100 [Call 0 (Add_work 0 0), Step 0 0]) @
     [Call 1 (Add_work 9 9), Step 1 0]"

definition filling :: "nat \<Rightarrow> config" where
  "filling m =
     \<lparr>pool = \<lparr>queue = replicate 100 \<lparr>func = 0, argument = 0\<rparr>, queue_size = int m,
              head = 4, tail = (4 + int m) mod 100,
              worker_threads = [Some 2, Some 3, Some 4, Some 5], shutdown = False\<rparr>,
      freed = False, lock_deleted = False,
      threads = [Idle, Idle,
                 Run_worker \<lparr>func = 0, argument = 0\<rparr>, Run_worker \<lparr>func = 0, argument = 0\<rparr>,
                 Run_worker \<lparr>func = 0, argument = 0\<rparr>, Run_worker \<lparr>func = 0, argument = 0\<rparr>],
      closed_handles = [],
      add_work_true = replicate (4 + m) \<lparr>func = 0, argument = 0\<rparr>,
      add_work_false = [], start_returns = [True], executed = []\<rparr>"

section \<open>Circular buffers\<close>

lemma ring_contents_length: "length (ring_contents arr cap first n) = nat n"
  by (simp add: ring_contents_def)

lemma ring_contents_empty: "ring_contents arr cap first 0 = []"
  by (simp add: ring_contents_def)

lemma ring_slot_distinct:
  fixes cap first n :: int
  assumes "0 \<le> n" "n < cap" "i < nat n"
  shows "(first + int i) mod cap \<noteq> (first + n) mod cap"
proof
  assume "(first + int i) mod cap = (first + n) mod cap"
  then have "cap dvd (first + int i) - (first + n)"
    by (simp add: mod_eq_dvd_iff)
  then have d: "cap dvd n - int i" by (simp add: dvd_diff_commute)
  have "0 < n - int i" "n - int i < cap" using assms by auto
  with d show False
    using zdvd_not_zless by blast
qed

lemma ring_contents_push:
  fixes cap first n :: int
  assumes "0 \<le> n" "n < cap" "length arr = nat cap"
  shows "ring_contents (arr[nat ((first + n) mod cap) := x]) cap first (n + 1)
         = ring_contents arr cap first n @ [x]"
proof -
  have cap: "0 < cap" using assms by simp
  have nn: "nat (n + 1) = Suc (nat n)" using assms by simp
  have bound: "nat ((first + n) mod cap) < length arr"
    using cap assms(3) by (simp add: nat_less_iff)
  have old: "arr[nat ((first + n) mod cap) := x] ! nat ((first + int i) mod cap)
             = arr ! nat ((first + int i) mod cap)" if "i < nat n" for i
  proof -
    have "(first + int i) mod cap \<noteq> (first + n) mod cap"
      using ring_slot_distinct [OF assms(1,2) that] .
    moreover have "0 \<le> (first + int i) mod cap" "0 \<le> (first + n) mod cap"
      using cap by simp_all
    ultimately have "nat ((first + int i) mod cap) \<noteq> nat ((first + n) mod cap)"
      by (simp add: nat_eq_iff)
    then show ?thesis by simp
  qed
  have new: "arr[nat ((first + n) mod cap) := x] ! nat ((first + int (nat n)) mod cap) = x"
    using bound assms(1) by simp
  show ?thesis
    unfolding ring_contents_def nn
    using old new by simp
qed

lemma ring_contents_pop:
  fixes cap first n :: int
  assumes "0 < n" "0 \<le> first" "first < cap"
  shows "ring_contents arr cap first n
         = arr ! nat first # ring_contents arr cap ((first + 1) mod cap) (n - 1)"
proof -
  have nn: "nat n = Suc (nat (n - 1))" using assms by simp
  have shift: "((first + 1) mod cap + int i) mod cap = (first + int (Suc i)) mod cap" for i
    by (simp add: mod_add_left_eq add.assoc)
  have "[0..<Suc (nat (n - 1))] = 0 # map Suc [0..<nat (n - 1)]"
    by (simp add: upt_conv_Cons map_Suc_upt del: upt_Suc)
  then show ?thesis
    unfolding ring_contents_def nn
    using assms by (simp add: shift o_def del: upt_Suc)
qed

lemma next_index:
  fixes i cap :: int
  assumes "0 \<le> i" "i < cap"
  shows "(i + 1) smod cap = (i + 1) mod cap"
    and "0 \<le> (i + 1) smod cap" and "(i + 1) smod cap < cap"
  using assms by (simp_all add: smod_mod_positive)

subsection \<open>producer\_consumer.c\<close>

lemma buffer_size_pos: "0 < BUFFER_SIZE"
  by (simp add: BUFFER_SIZE_def)

lemma init_buffer_inv:
  "int (length (buffer mem)) = BUFFER_SIZE \<Longrightarrow> buffer_inv (init_buffer mem)"
  by (simp add: buffer_inv_def init_buffer_def BUFFER_SIZE_def)

lemma init_buffer_items: "buffer_items (init_buffer mem) = []"
  by (simp add: buffer_items_def init_buffer_def ring_contents_empty)

lemma buffer_insert_blocked:
  "buffer_insert item b = Inr Blocked \<longleftrightarrow> count b = BUFFER_SIZE"
  by (auto simp: buffer_insert_def array_write_def)

lemma buffer_insert_completes:
  assumes "buffer_inv b" "count b \<noteq> BUFFER_SIZE"
  shows "\<exists>b'. buffer_insert item b = Inr (Completed b') \<and> buffer_inv b' \<and>
              count b' = count b + 1 \<and> buffer_items b' = buffer_items b @ [item]"
proof -
  let ?a = "(buffer b)[nat (in_index b) := item]"
  let ?b' = "b\<lparr>buffer := ?a, in_index := (in_index b + 1) smod BUFFER_SIZE,
               count := count b + 1\<rparr>"
  from assms have len: "int (length (buffer b)) = BUFFER_SIZE"
    and cnt: "0 \<le> count b" "count b < BUFFER_SIZE"
    and inb: "0 \<le> in_index b" "in_index b < BUFFER_SIZE"
    and outb: "0 \<le> out b" "out b < BUFFER_SIZE"
    and rel: "in_index b = (out b + count b) mod BUFFER_SIZE"
    by (simp_all add: buffer_inv_def)
  have run: "buffer_insert item b = Inr (Completed ?b')"
    using assms(2) len inb by (simp add: buffer_insert_def array_write_def)
  have nxt: "(in_index b + 1) smod BUFFER_SIZE = (out b + (count b + 1)) mod BUFFER_SIZE"
    using next_index(1) [OF inb] rel by (simp add: mod_add_left_eq add.assoc)
  have inv: "buffer_inv ?b'"
    using len cnt outb next_index(2,3) [OF inb] nxt by (simp add: buffer_inv_def)
  have "ring_contents ((buffer b)[nat ((out b + count b) mod BUFFER_SIZE) := item])
          BUFFER_SIZE (out b) (count b + 1)
        = ring_contents (buffer b) BUFFER_SIZE (out b) (count b) @ [item]"
    using cnt len by (intro ring_contents_push) simp_all
  then have items: "buffer_items ?b' = buffer_items b @ [item]"
    using rel by (simp add: buffer_items_def)
  show ?thesis using run inv items by simp
qed

lemma buffer_remove_blocked:
  "buffer_remove b = Inr Blocked \<longleftrightarrow> count b = 0"
  by (auto simp: buffer_remove_def array_read_def)

lemma buffer_remove_completes:
  assumes "buffer_inv b" "count b \<noteq> 0"
  shows "\<exists>item b'. buffer_remove b = Inr (Completed (item, b')) \<and> buffer_inv b' \<and>
              count b' = count b - 1 \<and> buffer_items b = item # buffer_items b'"
proof -
  let ?b' = "b\<lparr>out := (out b + 1) smod BUFFER_SIZE, count := count b - 1\<rparr>"
  from assms have len: "int (length (buffer b)) = BUFFER_SIZE"
    and cnt: "0 < count b" "count b \<le> BUFFER_SIZE"
    and inb: "0 \<le> in_index b" "in_index b < BUFFER_SIZE"
    and outb: "0 \<le> out b" "out b < BUFFER_SIZE"
    and rel: "in_index b = (out b + count b) mod BUFFER_SIZE"
    by (simp_all add: buffer_inv_def)
  have run: "buffer_remove b = Inr (Completed (buffer b ! nat (out b), ?b'))"
    using assms(2) len outb by (simp add: buffer_remove_def array_read_def)
  have "((out b + 1) mod BUFFER_SIZE + (count b - 1)) mod BUFFER_SIZE
        = (out b + count b) mod BUFFER_SIZE"
    by (simp add: mod_add_left_eq)
  then have inv: "buffer_inv ?b'"
    using len cnt inb rel next_index [OF outb] by (simp add: buffer_inv_def)
  have items: "buffer_items b = buffer b ! nat (out b) # buffer_items ?b'"
    using ring_contents_pop [OF cnt(1) outb] next_index(1) [OF outb]
    by (simp add: buffer_items_def)
  show ?thesis using run inv items by simp
qed

lemma pc_start_inv:
  "int (length (buffer mem)) = BUFFER_SIZE \<Longrightarrow> pc_inv (pc_start mem)"
  by (simp add: pc_inv_def pc_start_def init_buffer_inv init_buffer_items)

lemma pc_step_inv:
  assumes "pc_inv s"
  shows "\<exists>s'. pc_step ev s = Inr s' \<and> pc_inv s'"
proof (cases ev)
  case (Insert item)
  show ?thesis
  proof (cases "count (buf s) = BUFFER_SIZE")
    case True
    then have "buffer_insert item (buf s) = Inr Blocked"
      by (simp add: buffer_insert_blocked)
    with Insert assms show ?thesis by (simp add: pc_step_def)
  next
    case False
    with assms obtain b' where "buffer_insert item (buf s) = Inr (Completed b')"
      "buffer_inv b'" "buffer_items b' = buffer_items (buf s) @ [item]"
      using buffer_insert_completes [of "buf s" item] by (auto simp: pc_inv_def)
    with Insert assms show ?thesis by (simp add: pc_step_def pc_inv_def)
  qed
next
  case Remove
  show ?thesis
  proof (cases "count (buf s) = 0")
    case True
    then have "buffer_remove (buf s) = Inr Blocked"
      by (simp add: buffer_remove_blocked)
    with Remove assms show ?thesis by (simp add: pc_step_def)
  next
    case False
    with assms obtain item b' where "buffer_remove (buf s) = Inr (Completed (item, b'))"
      "buffer_inv b'" "buffer_items (buf s) = item # buffer_items b'"
      using buffer_remove_completes [of "buf s"] by (auto simp: pc_inv_def)
    with Remove assms show ?thesis by (simp add: pc_step_def pc_inv_def)
  qed
qed

lemma pc_run_inv:
  "pc_inv s \<Longrightarrow> \<exists>s'. pc_run evs s = Inr s' \<and> pc_inv s'"
proof (induction evs arbitrary: s)
  case Nil
  then show ?case by simp
next
  case (Cons ev evs)
  from pc_step_inv [OF Cons.prems] obtain s1 where "pc_step ev s = Inr s1" "pc_inv s1"
    by blast
  with Cons.IH [of s1] show ?case by simp
qed

lemma pc_step_insert:
  assumes "pc_inv s" "count (buf s) \<noteq> BUFFER_SIZE"
  shows "\<exists>s'. pc_step (Insert x) s = Inr s' \<and> pc_inv s' \<and>
           inserted s' = inserted s @ [x] \<and> removed s' = removed s \<and>
           count (buf s') = count (buf s) + 1"
proof -
  from assms obtain b' where "buffer_insert x (buf s) = Inr (Completed b')"
    "buffer_inv b'" "count b' = count (buf s) + 1"
    "buffer_items b' = buffer_items (buf s) @ [x]"
    using buffer_insert_completes [of "buf s" x] by (auto simp: pc_inv_def)
  with assms(1) show ?thesis by (simp add: pc_step_def pc_inv_def)
qed

lemma pc_step_remove:
  assumes "pc_inv s" "count (buf s) \<noteq> 0"
  shows "\<exists>s' x. pc_step Remove s = Inr s' \<and> pc_inv s' \<and>
           inserted s' = inserted s \<and> removed s' = removed s @ [x] \<and>
           count (buf s') = count (buf s) - 1"
proof -
  from assms obtain x b' where "buffer_remove (buf s) = Inr (Completed (x, b'))"
    "buffer_inv b'" "count b' = count (buf s) - 1"
    "buffer_items (buf s) = x # buffer_items b'"
    using buffer_remove_completes [of "buf s"] by (auto simp: pc_inv_def)
  with assms(1) show ?thesis by (simp add: pc_step_def pc_inv_def)
qed

lemma pc_run_append:
  "pc_run (xs @ ys) s = (case pc_run xs s of Inl e \<Rightarrow> Inl e | Inr s' \<Rightarrow> pc_run ys s')"
  by (induction xs arbitrary: s) (simp_all split: sum.splits)

lemma pc_run_inserts:
  assumes "pc_inv s" "count (buf s) + int (length xs) \<le> BUFFER_SIZE"
  shows "\<exists>s'. pc_run (map Insert xs) s = Inr s' \<and> pc_inv s' \<and>
           inserted s' = inserted s @ xs \<and> removed s' = removed s \<and>
           count (buf s') = count (buf s) + int (length xs)"
  using assms
proof (induction xs arbitrary: s)
  case Nil
  then show ?case by simp
next
  case (Cons x xs)
  then have "count (buf s) \<noteq> BUFFER_SIZE" by auto
  from pc_step_insert [OF Cons.prems(1) this, of x] obtain s1 where
    s1: "pc_step (Insert x) s = Inr s1" "pc_inv s1" "inserted s1 = inserted s @ [x]"
      "removed s1 = removed s" "count (buf s1) = count (buf s) + 1"
    by blast
  with Cons.prems(2) have "count (buf s1) + int (length xs) \<le> BUFFER_SIZE" by simp
  from Cons.IH [OF s1(2) this] s1 show ?case by auto
qed

lemma pc_run_removes:
  assumes "pc_inv s" "int n \<le> count (buf s)"
  shows "\<exists>s'. pc_run (replicate n Remove) s = Inr s' \<and> pc_inv s' \<and>
           inserted s' = inserted s \<and> length (removed s') = length (removed s) + n \<and>
           count (buf s') = count (buf s) - int n"
  using assms
proof (induction n arbitrary: s)
  case 0
  then show ?case by simp
next
  case (Suc n)
  then have "count (buf s) \<noteq> 0" by auto
  from pc_step_remove [OF Suc.prems(1) this] obtain s1 x where
    s1: "pc_step Remove s = Inr s1" "pc_inv s1" "inserted s1 = inserted s"
      "removed s1 = removed s @ [x]" "count (buf s1) = count (buf s) - 1"
    by blast
  with Suc.prems(2) have "int n \<le> count (buf s1)" by simp
  from Suc.IH [OF s1(2) this] s1 show ?case by auto
qed

lemma pc_start_fields:
  "inserted (pc_start mem) = []" "removed (pc_start mem) = []" "count (buf (pc_start mem)) = 0"
  by (simp_all add: pc_start_def init_buffer_def)

subsection \<open>thread\_pool.c: the queue\<close>

lemma thread_pool_init_inv:
  assumes "thread_pool_init (Some mem) = Some tp" "int (length (queue mem)) = MAX_QUEUE_SIZE"
  shows "pool_inv tp" and "queue_items tp = []" and "\<not> shutdown tp"
  using assms
  by (auto simp: thread_pool_init_def pool_inv_def queue_items_def ring_contents_empty
      MAX_QUEUE_SIZE_def)

lemma add_work_closed:
  "shutdown tp \<Longrightarrow> thread_pool_add_work tp f a = Inr (Completed (False, tp))"
  by (simp add: thread_pool_add_work_def)

lemma add_work_full:
  "\<not> shutdown tp \<Longrightarrow> queue_size tp = MAX_QUEUE_SIZE \<Longrightarrow>
   thread_pool_add_work tp f a = Inr Blocked"
  by (simp add: thread_pool_add_work_def)

lemma add_work_accepts:
  assumes "pool_inv tp" "\<not> shutdown tp" "queue_size tp \<noteq> MAX_QUEUE_SIZE"
  shows "\<exists>tp'. thread_pool_add_work tp f a = Inr (Completed (True, tp')) \<and> pool_inv tp' \<and>
           queue_size tp' = queue_size tp + 1 \<and>
           queue_items tp' = queue_items tp @ [\<lparr>func = f, argument = a\<rparr>] \<and>
           shutdown tp' = shutdown tp \<and> worker_threads tp' = worker_threads tp"
proof -
  let ?w = "\<lparr>func = f, argument = a\<rparr>"
  let ?tp' = "tp\<lparr>queue := (queue tp)[nat (tail tp) := ?w],
                 tail := (tail tp + 1) smod MAX_QUEUE_SIZE,
                 queue_size := queue_size tp + 1\<rparr>"
  from assms have len: "int (length (queue tp)) = MAX_QUEUE_SIZE"
    and cnt: "0 \<le> queue_size tp" "queue_size tp < MAX_QUEUE_SIZE"
    and hd: "0 \<le> head tp" "head tp < MAX_QUEUE_SIZE"
    and tl: "0 \<le> tail tp" "tail tp < MAX_QUEUE_SIZE"
    and rel: "tail tp = (head tp + queue_size tp) mod MAX_QUEUE_SIZE"
    by (simp_all add: pool_inv_def)
  have run: "thread_pool_add_work tp f a = Inr (Completed (True, ?tp'))"
    using assms(2,3) len tl by (simp add: thread_pool_add_work_def array_write_def)
  have nxt: "(tail tp + 1) smod MAX_QUEUE_SIZE
             = (head tp + (queue_size tp + 1)) mod MAX_QUEUE_SIZE"
    using next_index(1) [OF tl] rel by (simp add: mod_add_left_eq add.assoc)
  have inv: "pool_inv ?tp'"
    using len cnt hd next_index(2,3) [OF tl] nxt by (simp add: pool_inv_def)
  have "ring_contents ((queue tp)[nat ((head tp + queue_size tp) mod MAX_QUEUE_SIZE) := ?w])
          MAX_QUEUE_SIZE (head tp) (queue_size tp + 1)
        = ring_contents (queue tp) MAX_QUEUE_SIZE (head tp) (queue_size tp) @ [?w]"
    using cnt len by (intro ring_contents_push) simp_all
  then have items: "queue_items ?tp' = queue_items tp @ [?w]"
    using rel by (simp add: queue_items_def)
  show ?thesis using run inv items by simp
qed

lemma worker_sleeps:
  "queue_size tp = 0 \<Longrightarrow> \<not> shutdown tp \<Longrightarrow> worker_thread_cs tp = Inr Blocked"
  by (simp add: worker_thread_cs_def)

lemma worker_exits:
  "queue_size tp = 0 \<Longrightarrow> shutdown tp \<Longrightarrow>
   worker_thread_cs tp = Inr (Completed (Exit_loop, tp))"
  by (simp add: worker_thread_cs_def)

lemma worker_takes:
  assumes "pool_inv tp" "queue_size tp \<noteq> 0"
  shows "\<exists>work tp'. worker_thread_cs tp = Inr (Completed (Execute work, tp')) \<and> pool_inv tp' \<and>
           queue_size tp' = queue_size tp - 1 \<and>
           queue_items tp = work # queue_items tp' \<and>
           shutdown tp' = shutdown tp \<and> worker_threads tp' = worker_threads tp"
proof -
  let ?tp' = "tp\<lparr>head := (head tp + 1) smod MAX_QUEUE_SIZE, queue_size := queue_size tp - 1\<rparr>"
  from assms have len: "int (length (queue tp)) = MAX_QUEUE_SIZE"
    and cnt: "0 < queue_size tp" "queue_size tp \<le> MAX_QUEUE_SIZE"
    and hd: "0 \<le> head tp" "head tp < MAX_QUEUE_SIZE"
    and tl: "0 \<le> tail tp" "tail tp < MAX_QUEUE_SIZE"
    and rel: "tail tp = (head tp + queue_size tp) mod MAX_QUEUE_SIZE"
    by (simp_all add: pool_inv_def)
  have run: "worker_thread_cs tp = Inr (Completed (Execute (queue tp ! nat (head tp)), ?tp'))"
    using assms(2) len hd by (simp add: worker_thread_cs_def array_read_def)
  have "((head tp + 1) mod MAX_QUEUE_SIZE + (queue_size tp - 1)) mod MAX_QUEUE_SIZE
        = (head tp + queue_size tp) mod MAX_QUEUE_SIZE"
    by (simp add: mod_add_left_eq)
  then have inv: "pool_inv ?tp'"
    using len cnt tl rel next_index [OF hd] by (simp add: pool_inv_def)
  have items: "queue_items tp = queue tp ! nat (head tp) # queue_items ?tp'"
    using ring_contents_pop [OF cnt(1) hd] next_index(1) [OF hd]
    by (simp add: queue_items_def)
  show ?thesis using run inv items by simp
qed

lemma shutdown_cs_inv:
  "pool_inv tp \<Longrightarrow> pool_inv (thread_pool_shutdown_cs tp)"
  "queue_items (thread_pool_shutdown_cs tp) = queue_items tp"
  "shutdown (thread_pool_shutdown_cs tp)"
  by (simp_all add: pool_inv_def queue_items_def thread_pool_shutdown_cs_def)

lemma queue_items_length: "length (queue_items tp) = nat (queue_size tp)"
  by (simp add: queue_items_def ring_contents_length)

lemma tp_step_inv:
  assumes "pool_inv tp"
  shows "\<exists>ob tp'. tp_step ev tp = Inr (ob, tp') \<and> pool_inv tp' \<and>
           queue_items tp @ pushed_items [ob] = popped_items [ob] @ queue_items tp' \<and>
           (shutdown tp \<longrightarrow> shutdown tp')"
proof (cases ev)
  case (Push f a)
  consider (closed) "shutdown tp"
    | (full) "\<not> shutdown tp" "queue_size tp = MAX_QUEUE_SIZE"
    | (room) "\<not> shutdown tp" "queue_size tp \<noteq> MAX_QUEUE_SIZE" by blast
  then show ?thesis
  proof cases
    case closed
    with Push assms show ?thesis by (simp add: tp_step_def add_work_closed)
  next
    case full
    with Push assms show ?thesis by (simp add: tp_step_def add_work_full)
  next
    case room
    from add_work_accepts [OF assms room, of f a] obtain tp' where
      "thread_pool_add_work tp f a = Inr (Completed (True, tp'))" "pool_inv tp'"
      "queue_items tp' = queue_items tp @ [\<lparr>func = f, argument = a\<rparr>]"
      "shutdown tp' = shutdown tp"
      by blast
    with Push show ?thesis by (simp add: tp_step_def)
  qed
next
  case Pop
  consider (sleep) "queue_size tp = 0" "\<not> shutdown tp"
    | (exit) "queue_size tp = 0" "shutdown tp"
    | (take) "queue_size tp \<noteq> 0" by blast
  then show ?thesis
  proof cases
    case sleep
    with Pop assms show ?thesis by (simp add: tp_step_def worker_sleeps)
  next
    case exit
    with Pop assms show ?thesis by (simp add: tp_step_def worker_exits)
  next
    case take
    from worker_takes [OF assms take] obtain work tp' where
      "worker_thread_cs tp = Inr (Completed (Execute work, tp'))" "pool_inv tp'"
      "queue_items tp = work # queue_items tp'" "shutdown tp' = shutdown tp"
      by blast
    with Pop show ?thesis by (simp add: tp_step_def)
  qed
next
  case Close
  with assms show ?thesis by (simp add: tp_step_def shutdown_cs_inv)
qed

lemma pushed_items_append: "pushed_items (xs @ ys) = pushed_items xs @ pushed_items ys"
  by (induction xs rule: pushed_items.induct) simp_all

lemma popped_items_append: "popped_items (xs @ ys) = popped_items xs @ popped_items ys"
  by (induction xs rule: popped_items.induct) simp_all

lemma tp_run_inv:
  "pool_inv tp \<Longrightarrow>
   \<exists>obs tp'. tp_run evs tp = Inr (obs, tp') \<and> pool_inv tp' \<and>
     queue_items tp @ pushed_items obs = popped_items obs @ queue_items tp' \<and>
     (shutdown tp \<longrightarrow> shutdown tp')"
proof (induction evs arbitrary: tp)
  case Nil
  then show ?case by simp
next
  case (Cons ev evs)
  from tp_step_inv [OF Cons.prems, of ev] obtain ob tp1 where
    s: "tp_step ev tp = Inr (ob, tp1)" "pool_inv tp1"
      "queue_items tp @ pushed_items [ob] = popped_items [ob] @ queue_items tp1"
      "shutdown tp \<longrightarrow> shutdown tp1"
    by blast
  from Cons.IH [OF s(2)] obtain obs tp2 where
    r: "tp_run evs tp1 = Inr (obs, tp2)" "pool_inv tp2"
      "queue_items tp1 @ pushed_items obs = popped_items obs @ queue_items tp2"
      "shutdown tp1 \<longrightarrow> shutdown tp2"
    by blast
  have "queue_items tp @ pushed_items ([ob] @ obs)
        = popped_items ([ob] @ obs) @ queue_items tp2"
    unfolding pushed_items_append popped_items_append
    using s(3) r(3) by (metis append.assoc)
  with s r show ?case by simp
qed

lemma tp_drain:
  assumes "pool_inv tp" "shutdown tp"
  shows "\<exists>tp'. tp_run (replicate (length (queue_items tp) + k) Pop) tp
               = Inr (map Popped (queue_items tp) @ replicate k Pop_closed, tp')"
  using assms
proof (induction "length (queue_items tp)" arbitrary: tp)
  case 0
  then have "queue_items tp = []" by simp
  moreover from 0 have "queue_size tp = 0"
    by (simp add: queue_items_length pool_inv_def)
  ultimately have empty: "queue_size tp = 0" "queue_items tp = []" by simp_all
  note "0.prems"
  have "tp_run (replicate k Pop) tp = Inr (replicate k Pop_closed, tp)"
    using empty(1) "0.prems"(2)
    by (induction k) (simp_all add: tp_step_def worker_exits)
  with empty show ?case by simp
next
  case (Suc n)
  then have "queue_size tp \<noteq> 0" by (auto simp: queue_items_length)
  from worker_takes [OF Suc.prems(1) this] obtain work tp1 where
    t: "worker_thread_cs tp = Inr (Completed (Execute work, tp1))" "pool_inv tp1"
       "queue_items tp = work # queue_items tp1" "shutdown tp1 = shutdown tp"
    by blast
  with Suc.hyps(2) have "n = length (queue_items tp1)" by simp
  from Suc.hyps(1) [OF this t(2)] t(4) Suc.prems(2) obtain tp' where
    "tp_run (replicate (length (queue_items tp1) + k) Pop) tp1
       = Inr (map Popped (queue_items tp1) @ replicate k Pop_closed, tp')"
    by auto
  with t show ?case by (simp add: tp_step_def)
qed

subsection \<open>Thread tables\<close>

lemma in_flight_update:
  "t < length ths \<Longrightarrow>
   mset (in_flight (ths[t := s])) + mset (holding (ths ! t))
   = mset (in_flight ths) + mset (holding s)"
proof (induction ths arbitrary: t)
  case Nil
  then show ?case by simp
next
  case (Cons x xs)
  then show ?case by (cases t) (auto simp: in_flight_def)
qed

lemma in_flight_update_same:
  "holding s = holding (ths ! t) \<Longrightarrow> in_flight (ths[t := s]) = in_flight ths"
proof (induction ths arbitrary: t)
  case Nil
  then show ?case by simp
next
  case (Cons x xs)
  then show ?case by (cases t) (auto simp: in_flight_def)
qed

lemma holding_woken: "holding (woken s) = holding s"
  by (cases s) simp_all

lemma woken_exit: "woken s = Exit_worker \<longleftrightarrow> s = Exit_worker"
  by (cases s) simp_all

lemma in_flight_wake_all: "in_flight (WakeAllConditionVariable cv ths) = in_flight ths"
  by (induction ths) (simp_all add: in_flight_def WakeAllConditionVariable_def holding_woken)

lemma in_flight_wake_one: "in_flight (WakeConditionVariable cv k ths) = in_flight ths"
  by (simp add: WakeConditionVariable_def Let_def in_flight_update_same holding_woken)

lemma wake_if_exit:
  "(if sleeps_on cv s then woken s else s) = Exit_worker \<longleftrightarrow> s = Exit_worker"
  by (cases s) simp_all

lemma exit_wake_all:
  "Exit_worker \<in> set (WakeAllConditionVariable cv ths) \<longleftrightarrow> Exit_worker \<in> set ths"
proof (induction ths)
  case Nil
  then show ?case by (simp add: WakeAllConditionVariable_def)
next
  case (Cons s ths)
  have "WakeAllConditionVariable cv (s # ths)
        = (if sleeps_on cv s then woken s else s) # WakeAllConditionVariable cv ths"
    by (simp add: WakeAllConditionVariable_def)
  with Cons wake_if_exit [of cv s] show ?case by auto
qed

lemma exit_update_woken:
  assumes "Exit_worker \<in> set (ths[i := woken (ths ! i)])"
  shows "Exit_worker \<in> set ths"
proof (cases "ths ! i = Exit_worker")
  case True
  then have "woken (ths ! i) = ths ! i" by simp
  then have "ths[i := woken (ths ! i)] = ths" by (simp only: list_update_id)
  with assms show ?thesis by simp
next
  case False
  then have "woken (ths ! i) \<noteq> Exit_worker" by (simp add: woken_exit)
  with assms set_update_subset_insert [of ths i "woken (ths ! i)"] show ?thesis by auto
qed

lemma exit_wake_one:
  "Exit_worker \<in> set (WakeConditionVariable cv k ths) \<Longrightarrow> Exit_worker \<in> set ths"
  by (auto simp: WakeConditionVariable_def Let_def dest: exit_update_woken split: if_splits)

lemma exit_update:
  "Exit_worker \<in> set (ths[t := s]) \<Longrightarrow> s \<noteq> Exit_worker \<Longrightarrow> Exit_worker \<in> set ths"
  using set_update_subset_insert [of ths t s] by auto

lemma length_wake_all: "length (WakeAllConditionVariable cv ths) = length ths"
  by (simp add: WakeAllConditionVariable_def)

lemma length_wake_one: "length (WakeConditionVariable cv k ths) = length ths"
  by (simp add: WakeConditionVariable_def Let_def)

subsection \<open>Every block keeps the invariant\<close>

lemma cinv_same_pool:
  assumes "cinv c"
    and "pool c' = pool c" "add_work_true c' = add_work_true c" "executed c' = executed c"
    and "in_flight (threads c') = in_flight (threads c)"
    and "Exit_worker \<in> set (threads c') \<Longrightarrow> Exit_worker \<in> set (threads c)"
  shows "cinv c'"
  using assms by (auto simp: cinv_def)

lemma add_work_block_inv:
  assumes "cinv c" "t < length (threads c)" "threads c ! t = In_add_work f a"
    and "add_work_block t f a k c = Inr c'"
  shows "cinv c'"
proof -
  from assms(1) have pinv: "pool_inv (pool c)" by (simp add: cinv_def)
  from assms(4) have nofault: "enter_fault c = None"
    by (auto simp: add_work_block_def split: option.splits)
  have hold: "holding (threads c ! t) = []" using assms(3) by simp
  consider (closed) "shutdown (pool c)"
    | (full) "\<not> shutdown (pool c)" "queue_size (pool c) = MAX_QUEUE_SIZE"
    | (room) "\<not> shutdown (pool c)" "queue_size (pool c) \<noteq> MAX_QUEUE_SIZE" by blast
  then show ?thesis
  proof cases
    case closed
    then have c': "c' = c\<lparr>threads := (threads c)[t := Idle],
                           add_work_false := add_work_false c @ [\<lparr>func = f, argument = a\<rparr>]\<rparr>"
      using assms(4) nofault by (simp add: add_work_block_def add_work_closed)
    show ?thesis
    proof (rule cinv_same_pool [OF assms(1)])
      show "in_flight (threads c') = in_flight (threads c)"
        using hold by (simp add: c' in_flight_update_same)
      show "Exit_worker \<in> set (threads c') \<Longrightarrow> Exit_worker \<in> set (threads c)"
        by (auto simp: c' dest: exit_update)
    qed (simp_all add: c')
  next
    case full
    then have c': "c' = set_thread t (Sleep_add_work f a) c"
      using assms(4) nofault by (simp add: add_work_block_def add_work_full)
    show ?thesis
    proof (rule cinv_same_pool [OF assms(1)])
      show "in_flight (threads c') = in_flight (threads c)"
        using hold by (simp add: c' set_thread_def in_flight_update_same)
      show "Exit_worker \<in> set (threads c') \<Longrightarrow> Exit_worker \<in> set (threads c)"
        by (auto simp: c' set_thread_def dest: exit_update)
    qed (simp_all add: c' set_thread_def)
  next
    case room
    from add_work_accepts [OF pinv room, of f a] obtain tp' where
      tp': "thread_pool_add_work (pool c) f a = Inr (Completed (True, tp'))" "pool_inv tp'"
        "queue_items tp' = queue_items (pool c) @ [\<lparr>func = f, argument = a\<rparr>]"
        "shutdown tp' = shutdown (pool c)"
      by blast
    then have c': "c' = c\<lparr>pool := tp',
        threads := WakeConditionVariable queue_not_empty k ((threads c)[t := Idle]),
        add_work_true := add_work_true c @ [\<lparr>func = f, argument = a\<rparr>]\<rparr>"
      using assms(4) nofault by (simp add: add_work_block_def)
    have fl: "in_flight (threads c') = in_flight (threads c)"
      using hold by (simp add: c' in_flight_wake_one in_flight_update_same)
    have ex: "Exit_worker \<in> set (threads c') \<Longrightarrow> Exit_worker \<in> set (threads c)"
      by (auto simp: c' dest!: exit_wake_one exit_update)
    have "\<not> shutdown (pool c')" using room tp'(4) by (simp add: c')
    moreover have "Exit_worker \<in> set (threads c) \<longrightarrow> shutdown (pool c)"
      using assms(1) by (simp add: cinv_def)
    ultimately have noexit: "Exit_worker \<notin> set (threads c')" using ex room(1) by blast
    have "mset (add_work_true c')
          = mset (executed c') + mset (in_flight (threads c')) + mset (queue_items (pool c'))"
      using assms(1) fl tp'(3) by (simp add: cinv_def c')
    with tp'(2) noexit show ?thesis by (simp add: cinv_def c')
  qed
qed

lemma worker_block_inv:
  assumes "cinv c" "t < length (threads c)" "threads c ! t = In_worker"
    and "worker_block t k c = Inr c'"
  shows "cinv c'"
proof -
  from assms(1) have pinv: "pool_inv (pool c)" by (simp add: cinv_def)
  from assms(4) have nofault: "enter_fault c = None"
    by (auto simp: worker_block_def split: option.splits)
  have hold: "holding (threads c ! t) = []" using assms(3) by simp
  consider (sleep) "queue_size (pool c) = 0" "\<not> shutdown (pool c)"
    | (exit) "queue_size (pool c) = 0" "shutdown (pool c)"
    | (take) "queue_size (pool c) \<noteq> 0" by blast
  then show ?thesis
  proof cases
    case sleep
    then have c': "c' = set_thread t Sleep_worker c"
      using assms(4) nofault by (simp add: worker_block_def worker_sleeps)
    show ?thesis
    proof (rule cinv_same_pool [OF assms(1)])
      show "in_flight (threads c') = in_flight (threads c)"
        using hold by (simp add: c' set_thread_def in_flight_update_same)
      show "Exit_worker \<in> set (threads c') \<Longrightarrow> Exit_worker \<in> set (threads c)"
        by (auto simp: c' set_thread_def dest: exit_update)
    qed (simp_all add: c' set_thread_def)
  next
    case exit
    then have c': "c' = set_thread t Exit_worker c"
      using assms(4) nofault by (simp add: worker_block_def worker_exits)
    have "in_flight (threads c') = in_flight (threads c)"
      using hold by (simp add: c' set_thread_def in_flight_update_same)
    with assms(1) exit show ?thesis by (simp add: cinv_def c' set_thread_def)
  next
    case take
    from worker_takes [OF pinv take] obtain work tp' where
      tp': "worker_thread_cs (pool c) = Inr (Completed (Execute work, tp'))" "pool_inv tp'"
        "queue_size tp' = queue_size (pool c) - 1"
        "queue_items (pool c) = work # queue_items tp'"
        "shutdown tp' = shutdown (pool c)"
      by blast
    then have c': "c' = c\<lparr>pool := tp',
        threads := WakeConditionVariable queue_not_full k ((threads c)[t := Run_worker work])\<rparr>"
      using assms(4) nofault by (simp add: worker_block_def)
    have "mset (in_flight ((threads c)[t := Run_worker work])) + mset (holding (threads c ! t))
          = mset (in_flight (threads c)) + mset (holding (Run_worker work))"
      using assms(2) by (rule in_flight_update)
    then have fl: "mset (in_flight (threads c')) = mset (in_flight (threads c)) + {#work#}"
      using hold by (simp add: c' in_flight_wake_one)
    have ex: "Exit_worker \<in> set (threads c') \<Longrightarrow> Exit_worker \<in> set (threads c)"
      by (auto simp: c' dest!: exit_wake_one exit_update)
    have "Exit_worker \<notin> set (threads c)"
      using assms(1) take by (auto simp: cinv_def)
    with ex have noexit: "Exit_worker \<notin> set (threads c')" by blast
    have "mset (add_work_true c')
          = mset (executed c') + mset (in_flight (threads c')) + mset (queue_items (pool c'))"
      using assms(1) fl tp'(4) by (simp add: cinv_def c')
    with tp'(2) noexit show ?thesis by (simp add: cinv_def c')
  qed
qed

lemma worker_execute_inv:
  assumes "cinv c" "t < length (threads c)" "threads c ! t = Run_worker work"
  shows "cinv (worker_execute t work c)"
proof -
  have "mset (in_flight ((threads c)[t := In_worker])) + mset (holding (threads c ! t))
        = mset (in_flight (threads c)) + mset (holding In_worker)"
    using assms(2) by (rule in_flight_update)
  then have fl: "mset (in_flight ((threads c)[t := In_worker])) + {#work#}
                 = mset (in_flight (threads c))"
    using assms(3) by simp
  have ex: "Exit_worker \<in> set ((threads c)[t := In_worker]) \<Longrightarrow> Exit_worker \<in> set (threads c)"
    by (auto dest: exit_update)
  have "mset (add_work_true c)
        = mset (executed c) + {#work#} + mset (in_flight ((threads c)[t := In_worker]))
          + mset (queue_items (pool c))"
    using assms(1) fl [symmetric] by (simp add: cinv_def)
  with assms(1) ex show ?thesis by (auto simp: cinv_def worker_execute_def)
qed

lemma cinv_same_queue:
  assumes "cinv c"
    and "queue (pool c') = queue (pool c)" "queue_size (pool c') = queue_size (pool c)"
    and "head (pool c') = head (pool c)" "tail (pool c') = tail (pool c)"
    and "shutdown (pool c) \<Longrightarrow> shutdown (pool c')"
    and "add_work_true c' = add_work_true c" "executed c' = executed c"
    and "in_flight (threads c') = in_flight (threads c)"
    and "Exit_worker \<in> set (threads c') \<Longrightarrow> Exit_worker \<in> set (threads c)"
  shows "cinv c'"
  using assms by (auto simp: cinv_def pool_inv_def queue_items_def)

lemma create_workers_keeps:
  "create_workers js k c = (r, c1) \<Longrightarrow>
   queue (pool c1) = queue (pool c) \<and> queue_size (pool c1) = queue_size (pool c) \<and>
   head (pool c1) = head (pool c) \<and> tail (pool c1) = tail (pool c) \<and>
   shutdown (pool c1) = shutdown (pool c) \<and>
   freed c1 = freed c \<and> lock_deleted c1 = lock_deleted c \<and>
   closed_handles c1 = closed_handles c \<and>
   add_work_true c1 = add_work_true c \<and> add_work_false c1 = add_work_false c \<and>
   start_returns c1 = start_returns c \<and> executed c1 = executed c"
  by (induction js k c arbitrary: r c1 rule: create_workers.induct)
     (auto split: if_splits)

lemma create_workers_threads:
  "create_workers js k c = (r, c1) \<Longrightarrow> \<exists>m. threads c1 = threads c @ replicate m In_worker"
proof (induction js k c arbitrary: r c1 rule: create_workers.induct)
  case (1 k c)
  then show ?case by simp
next
  case (2 i js k c)
  show ?case
  proof (cases "i < k")
    case True
    with 2 obtain m where "threads c1 = (threads c @ [In_worker]) @ replicate m In_worker"
      by fastforce
    then have "threads c1 = threads c @ replicate (Suc m) In_worker" by simp
    then show ?thesis by blast
  next
    case False
    with "2.prems" have "threads c1 = threads c @ replicate 0 In_worker" by auto
    then show ?thesis by blast
  qed
qed

lemma in_flight_new_workers: "in_flight (ths @ replicate m In_worker) = in_flight ths"
  by (induction m) (simp_all add: in_flight_def replicate_append_same [symmetric]
      del: replicate_Suc)

lemma exit_new_workers:
  "Exit_worker \<in> set (ths @ replicate m In_worker) \<longleftrightarrow> Exit_worker \<in> set ths"
  by auto

lemma start_block_inv:
  assumes "cinv c" "t < length (threads c)" "threads c ! t = In_start"
    and "start_block t k c = Inr c'"
  shows "cinv c'"
proof -
  obtain r c1 where cw: "create_workers [0..<THREAD_POOL_SIZE] k c = (r, c1)"
    by (cases "create_workers [0..<THREAD_POOL_SIZE] k c")
  note keep = create_workers_keeps [OF cw]
  from create_workers_threads [OF cw] obtain m where
    ths: "threads c1 = threads c @ replicate m In_worker" by blast
  have at: "threads c1 ! t = In_start"
    using assms(2,3) by (simp add: ths nth_append)
  have fl: "in_flight ((threads c1)[t := s]) = in_flight (threads c)" if "holding s = []" for s
    using that at in_flight_update_same [of s "threads c1" t]
    by (simp add: ths in_flight_new_workers)
  have ex: "Exit_worker \<in> set ((threads c1)[t := s]) \<Longrightarrow> Exit_worker \<in> set (threads c)"
    if "s \<noteq> Exit_worker" for s
    using that exit_update [of "threads c1" t s] by (simp add: ths)
  show ?thesis
  proof (cases r)
    case None
    with cw assms(4) have c': "c' = c1\<lparr>threads := (threads c1)[t := Idle],
                                       start_returns := start_returns c1 @ [True]\<rparr>"
      by (simp add: start_block_def split: if_splits)
    show ?thesis
      by (rule cinv_same_queue [OF assms(1)])
         (use keep fl [of Idle] ex [of Idle] in \<open>simp_all add: c'\<close>)
  next
    case (Some i)
    with cw assms(4) have c': "c' = c1\<lparr>pool := (pool c1)\<lparr>shutdown := True\<rparr>,
        threads := WakeAllConditionVariable queue_not_empty ((threads c1)[t := Join_start 0 i])\<rparr>"
      by (simp add: start_block_def split: if_splits)
    show ?thesis
      by (rule cinv_same_queue [OF assms(1)])
         (use keep fl [of "Join_start 0 i"] ex [of "Join_start 0 i"] in
           \<open>simp_all add: c' in_flight_wake_all exit_wake_all\<close>)
  qed
qed

lemma join_handle_completed:
  "join_handle h c = Inr (Completed c1) \<Longrightarrow>
   c1 = c\<lparr>closed_handles := closed_handles c @ [the h]\<rparr>"
  by (auto simp: join_handle_def split: option.splits if_splits)

lemma start_join_inv:
  assumes "cinv c" "t < length (threads c)" "threads c ! t = Join_start j i"
    and "start_join t j i c = Inr c'"
  shows "cinv c'"
proof (rule cinv_same_queue [OF assms(1)])
  have hold: "holding (threads c ! t) = []" using assms(3) by simp
  from assms(4) consider (same) "c' = c"
    | (closed) h where "c' = set_thread t (Join_start (Suc j) i)
                            (c\<lparr>closed_handles := closed_handles c @ [h]\<rparr>)"
    | (finished) "c' = c\<lparr>lock_deleted := True, threads := (threads c)[t := Idle],
                     start_returns := start_returns c @ [False]\<rparr>"
    by (auto simp: start_join_def split: if_splits sum.splits attempt.splits
        dest!: join_handle_completed)
  then have "pool c' = pool c \<and> add_work_true c' = add_work_true c \<and>
             executed c' = executed c \<and> in_flight (threads c') = in_flight (threads c) \<and>
             (Exit_worker \<in> set (threads c') \<longrightarrow> Exit_worker \<in> set (threads c))"
    using hold by cases (auto simp: set_thread_def in_flight_update_same dest: exit_update)
  then show "queue (pool c') = queue (pool c)" "queue_size (pool c') = queue_size (pool c)"
    "head (pool c') = head (pool c)" "tail (pool c') = tail (pool c)"
    "shutdown (pool c) \<Longrightarrow> shutdown (pool c')"
    "add_work_true c' = add_work_true c" "executed c' = executed c"
    "in_flight (threads c') = in_flight (threads c)"
    "Exit_worker \<in> set (threads c') \<Longrightarrow> Exit_worker \<in> set (threads c)"
    by simp_all
qed

lemma shutdown_block_inv:
  assumes "cinv c" "t < length (threads c)" "threads c ! t = In_shutdown"
    and "shutdown_block t c = Inr c'"
  shows "cinv c'"
proof -
  have hold: "holding (threads c ! t) = []" using assms(3) by simp
  from assms(4) have c': "c' = c\<lparr>pool := thread_pool_shutdown_cs (pool c),
      threads := WakeAllConditionVariable queue_not_empty ((threads c)[t := Join_shutdown 0])\<rparr>"
    by (auto simp: shutdown_block_def split: option.splits)
  show ?thesis
    by (rule cinv_same_queue [OF assms(1)])
       (use hold in \<open>auto simp: c' thread_pool_shutdown_cs_def in_flight_wake_all
          in_flight_update_same exit_wake_all dest: exit_update\<close>)
qed

lemma shutdown_join_inv:
  assumes "cinv c" "t < length (threads c)" "threads c ! t = Join_shutdown i"
    and "shutdown_join t i c = Inr c'"
  shows "cinv c'"
proof (rule cinv_same_queue [OF assms(1)])
  have hold: "holding (threads c ! t) = []" using assms(3) by simp
  from assms(4) consider (same) "c' = c"
    | (closed) h where "c' = set_thread t (Join_shutdown (Suc i))
                            (c\<lparr>closed_handles := closed_handles c @ [h]\<rparr>)"
    | (finished) "c' = c\<lparr>lock_deleted := True, freed := True, threads := (threads c)[t := Idle]\<rparr>"
    by (auto simp: shutdown_join_def split: if_splits sum.splits attempt.splits
        dest!: join_handle_completed)
  then have "pool c' = pool c \<and> add_work_true c' = add_work_true c \<and>
             executed c' = executed c \<and> in_flight (threads c') = in_flight (threads c) \<and>
             (Exit_worker \<in> set (threads c') \<longrightarrow> Exit_worker \<in> set (threads c))"
    using hold by cases (auto simp: set_thread_def in_flight_update_same dest: exit_update)
  then show "queue (pool c') = queue (pool c)" "queue_size (pool c') = queue_size (pool c)"
    "head (pool c') = head (pool c)" "tail (pool c') = tail (pool c)"
    "shutdown (pool c) \<Longrightarrow> shutdown (pool c')"
    "add_work_true c' = add_work_true c" "executed c' = executed c"
    "in_flight (threads c') = in_flight (threads c)"
    "Exit_worker \<in> set (threads c') \<Longrightarrow> Exit_worker \<in> set (threads c)"
    by simp_all
qed

lemma thread_step_inv:
  assumes "cinv c" "thread_step t k c = Inr c'"
  shows "cinv c'"
proof (cases "t < length (threads c)")
  case False
  with assms show ?thesis by (simp add: thread_step_def)
next
  case True
  show ?thesis
  proof (cases "threads c ! t")
    case (In_add_work f a)
    with assms True show ?thesis
      by (auto simp: thread_step_def intro: add_work_block_inv)
  next
    case In_start
    with assms True show ?thesis
      by (auto simp: thread_step_def intro: start_block_inv)
  next
    case (Join_start j i)
    with assms True show ?thesis
      by (auto simp: thread_step_def intro: start_join_inv)
  next
    case In_shutdown
    with assms True show ?thesis
      by (auto simp: thread_step_def intro: shutdown_block_inv)
  next
    case (Join_shutdown i)
    with assms True show ?thesis
      by (auto simp: thread_step_def intro: shutdown_join_inv)
  next
    case In_worker
    with assms True show ?thesis
      by (auto simp: thread_step_def intro: worker_block_inv)
  next
    case (Run_worker work)
    with assms True show ?thesis
      by (auto simp: thread_step_def intro: worker_execute_inv)
  qed (use assms True in \<open>simp_all add: thread_step_def\<close>)
qed

lemma call_block_inv:
  assumes "cinv c"
  shows "cinv (call_block t call c)"
proof (cases "t < length (threads c) \<and> threads c ! t = Idle")
  case False
  with assms show ?thesis by (auto simp: call_block_def)
next
  case True
  then have hold: "holding (threads c ! t) = []" by simp
  have upd: "cinv (set_thread t s c)" if "holding s = []" "s \<noteq> Exit_worker" for s
    by (rule cinv_same_queue [OF assms])
       (use that hold in \<open>auto simp: set_thread_def in_flight_update_same dest: exit_update\<close>)
  show ?thesis
  proof (cases call)
    case (Shutdown p)
    with True assms upd show ?thesis by (cases p) (simp_all add: call_block_def)
  qed (use True upd in \<open>simp_all add: call_block_def\<close>)
qed

lemma spurious_inv:
  assumes "cinv c"
  shows "cinv (set_thread t (woken (threads c ! t)) c)"
  by (rule cinv_same_queue [OF assms])
     (auto simp: set_thread_def in_flight_update_same holding_woken dest: exit_update_woken)

lemma step_inv: "cinv c \<Longrightarrow> step ev c = Inr c' \<Longrightarrow> cinv c'"
  by (cases ev) (auto simp: step_def call_block_inv spurious_inv dest: thread_step_inv)

lemma run_inv: "cinv c \<Longrightarrow> run evs c = Inr c' \<Longrightarrow> cinv c'"
proof (induction evs arbitrary: c)
  case Nil
  then show ?case by simp
next
  case (Cons ev evs)
  then show ?case by (auto split: sum.splits dest: step_inv)
qed

lemma boot_inv: "pool_inv tp \<Longrightarrow> queue_items tp = [] \<Longrightarrow> cinv (boot n tp)"
  by (simp add: cinv_def boot_def in_flight_def)

subsection \<open>The concrete memory is well formed\<close>

lemma zero_buffer_length: "int (length (buffer zero_buffer)) = BUFFER_SIZE"
  by (simp add: zero_buffer_def BUFFER_SIZE_def)

lemma zero_block_init: "thread_pool_init (Some zero_block) = Some zero_block"
  by (simp add: thread_pool_init_def zero_block_def)

lemma zero_block_length: "int (length (queue zero_block)) = MAX_QUEUE_SIZE"
  by (simp add: zero_block_def MAX_QUEUE_SIZE_def)

lemma tp_run_history:
  assumes "thread_pool_init (Some blk) = Some tp0" "int (length (queue blk)) = MAX_QUEUE_SIZE"
    and "tp_run evs tp0 = Inr (obs, tp)"
  shows "pool_inv tp" and "pushed_items obs = popped_items obs @ queue_items tp"
proof -
  have "pool_inv tp0" "queue_items tp0 = []"
    using assms(1,2) by (rule thread_pool_init_inv)+
  with tp_run_inv [of tp0 evs] assms(3)
  show "pool_inv tp" "pushed_items obs = popped_items obs @ queue_items tp"
    by auto
qed

lemmas eval_queue = tp_step_def thread_pool_add_work_def worker_thread_cs_def
  thread_pool_shutdown_cs_def array_write_def array_read_def MAX_QUEUE_SIZE_def
  smod_int_alt_def

subsection \<open>Reachable states of the pool\<close>

lemmas eval_threads = step_def thread_step_def call_block_def set_thread_def
  add_work_block_def worker_block_def worker_execute_def start_block_def start_join_def
  shutdown_block_def shutdown_join_def join_handle_def enter_fault_def
  WakeAllConditionVariable_def WakeConditionVariable_def sleepers_def THREAD_POOL_SIZE_def
  boot_def thread_pool_add_work_def worker_thread_cs_def thread_pool_shutdown_cs_def
  array_write_def array_read_def MAX_QUEUE_SIZE_def smod_int_alt_def zero_block_def upt_rec

lemma holding_done: "is_worker s \<longrightarrow> s = Exit_worker \<Longrightarrow> holding s = []"
  by (cases s) simp_all

lemma workers_done_in_flight: "workers_done c \<Longrightarrow> in_flight (threads c) = []"
  by (auto simp: workers_done_def in_flight_def list_all_iff holding_done)

lemma cinv_reachable:
  assumes "thread_pool_init (Some blk) = Some tp0" "int (length (queue blk)) = MAX_QUEUE_SIZE"
    and "run evs (boot n tp0) = Inr c"
  shows "cinv c"
proof -
  have "pool_inv tp0" "queue_items tp0 = []"
    using assms(1,2) by (rule thread_pool_init_inv)+
  then have "cinv (boot n tp0)" by (rule boot_inv)
  then show ?thesis using assms(3) by (rule run_inv)
qed

subsection \<open>The full queue is reachable\<close>

lemma run_append:
  "run (xs @ ys) c = (case run xs c of Inl e \<Rightarrow> Inl e | Inr c' \<Rightarrow> run ys c')"
  by (induction xs arbitrary: c) (simp_all split: sum.splits)

lemma replicate_update_same: "(replicate n x)[i := x] = replicate n x"
proof (cases "i < n")
  case True
  then have "(replicate n x)[i := replicate n x ! i] = replicate n x"
    by (simp only: list_update_id)
  with True show ?thesis by simp
next
  case False
  then show ?thesis by (simp add: list_update_beyond)
qed

lemma jam_start:
  "run ([Call 0 Start, Step 0 4] @
        concat (map (\<lambda>w. [Call 0 (Add_work 0 0), Step 0 0, Step w 0]) [2, 3, 4, 5]))
     (boot 2 zero_block) = Inr (filling 0)"
  by (simp add: eval_threads filling_def replicate_update_same numeral_eq_Suc)


lemma jam_push:
  assumes "m < 100"
  shows "run [Call 0 (Add_work 0 0), Step 0 0] (filling m) = Inr (filling (Suc m))"
proof -
  let ?t = "(4 + int m) mod 100"
  have rng: "0 \<le> ?t" "?t < 100" by simp_all
  have "(?t + 1) mod 100 = (5 + int m) mod 100"
    by (simp add: mod_add_left_eq)
  then have nxt: "(?t + 1) smod 100 = (4 + int (Suc m)) mod 100"
    using rng by (simp add: smod_mod_positive)
  have idx: "nat ?t < 100" using rng by simp
  have s1: "step (Call 0 (Add_work 0 0)) (filling m)
            = Inr ((filling m)\<lparr>threads := (threads (filling m))[0 := In_add_work 0 0]\<rparr>)"
    by (simp add: step_def call_block_def set_thread_def filling_def)
  have aw: "thread_pool_add_work (pool (filling m)) 0 0
            = Inr (Completed (True, (pool (filling m))
                \<lparr>tail := (4 + int (Suc m)) mod 100, queue_size := int (Suc m)\<rparr>))"
    using assms rng nxt
    by (simp add: thread_pool_add_work_def array_write_def MAX_QUEUE_SIZE_def filling_def
        replicate_update_same)
  have rep: "replicate (5 + m) \<lparr>func = 0, argument = 0\<rparr>
             = \<lparr>func = 0, argument = 0\<rparr> # replicate (4 + m) \<lparr>func = 0, argument = 0\<rparr>"
    by (simp add: numeral_eq_Suc)
  have s2: "step (Step 0 0) ((filling m)\<lparr>threads := (threads (filling m))[0 := In_add_work 0 0]\<rparr>)
            = Inr (filling (Suc m))"
    using aw
    by (simp add: step_def thread_step_def add_work_block_def enter_fault_def filling_def
        WakeConditionVariable_def sleepers_def upt_rec replicate_append_same rep)
  show ?thesis by (simp add: s1 s2)
qed

lemma jam_fill:
  "m + n \<le> 100 \<Longrightarrow>
   run (concat (replicate n [Call 0 (Add_work 0 0), Step 0 0])) (filling m)
     = Inr (filling (m + n))"
proof (induction n arbitrary: m)
  case 0
  then show ?case by simp
next
  case (Suc n)
  then have "m < 100" "Suc m + n \<le> 100" by simp_all
  from jam_push [OF this(1)] Suc.IH [OF this(2)]
  have "run ([Call 0 (Add_work 0 0), Step 0 0] @
             concat (replicate n [Call 0 (Add_work 0 0), Step 0 0])) (filling m)
        = Inr (filling (m + Suc n))"
    by (simp only: run_append sum.case add_Suc_right add_Suc)
  then show ?case by simp
qed

lemma jam_sleep: "run [Call 1 (Add_work 9 9), Step 1 0] (filling 100) = Inr jammed"
  by (simp add: eval_threads filling_def jammed_def)

lemma jammed_reachable: "run jam_events (boot 2 zero_block) = Inr jammed"
proof -
  let ?P = "[Call 0 Start, Step 0 4] @
            concat (map (\<lambda>w. [Call 0 (Add_work 0 0), Step 0 0, Step w 0]) [2, 3, 4, 5])"
  let ?C = "concat (replicate 100 [Call 0 (Add_work 0 0), Step 0 0])"
  let ?D = "[Call 1 (Add_work 9 9), Step 1 0]"
  have fill: "run ?C (filling 0) = Inr (filling 100)"
    using jam_fill [of 0 100] by simp
  have "jam_events = ?P @ ?C @ ?D"
    by (simp only: jam_events_def append_assoc)
  then have "run jam_events (boot 2 zero_block) = run (?P @ ?C @ ?D) (boot 2 zero_block)"
    by (rule arg_cong)
  also have "\<dots> = run (?C @ ?D) (filling 0)"
    by (simp only: run_append [of ?P] jam_start sum.case)
  also have "\<dots> = run ?D (filling 100)"
    by (simp only: run_append [of ?C] fill sum.case)
  also have "\<dots> = Inr jammed"
    by (rule jam_sleep)
  finally show ?thesis .
qed


section \<open>The claims\<close>

subsection \<open>C1: the length stays within the capacity\<close>

text \<open>
  C1. For every schedule of insertions and removals on the bounded buffer, started by
  \<^verbatim>\<open>init_buffer\<close>, and for every schedule of pushes, pops and closes on the queue of the
  pool, started by \<^verbatim>\<open>thread_pool_init\<close>, no block faults and the length
  (\<^verbatim>\<open>count\<close>, \<^verbatim>\<open>queue_size\<close>) is at least 0 and at most the capacity
  (\<^verbatim>\<open>BUFFER_SIZE\<close>, \<^verbatim>\<open>MAX_QUEUE_SIZE\<close>) at the end. Every prefix of a schedule is a
  schedule, so this is the bound after every operation. The same bound holds in every
  state the threads of the pool reach, under any interleaving of their blocks.
\<close>

theorem queue_length_within_capacity:
  assumes "int (length (buffer mem)) = BUFFER_SIZE"
    and "thread_pool_init (Some blk) = Some tp0" "int (length (queue blk)) = MAX_QUEUE_SIZE"
  shows "(\<exists>s. pc_run evs (pc_start mem) = Inr s \<and>
              0 \<le> count (buf s) \<and> count (buf s) \<le> BUFFER_SIZE) \<and>
         (\<exists>obs tp. tp_run ops tp0 = Inr (obs, tp) \<and>
              0 \<le> queue_size tp \<and> queue_size tp \<le> MAX_QUEUE_SIZE) \<and>
         (\<forall>c. run es (boot n tp0) = Inr c \<longrightarrow>
              0 \<le> queue_size (pool c) \<and> queue_size (pool c) \<le> MAX_QUEUE_SIZE)"
proof (intro conjI allI impI)
  from pc_run_inv [OF pc_start_inv [OF assms(1)], of evs] obtain s where
    "pc_run evs (pc_start mem) = Inr s" "pc_inv s" by blast
  then show "\<exists>s. pc_run evs (pc_start mem) = Inr s \<and>
              0 \<le> count (buf s) \<and> count (buf s) \<le> BUFFER_SIZE"
    by (auto simp: pc_inv_def buffer_inv_def)
next
  have "pool_inv tp0" using assms(2,3) by (rule thread_pool_init_inv)
  from tp_run_inv [OF this, of ops] obtain obs tp where
    "tp_run ops tp0 = Inr (obs, tp)" "pool_inv tp" by blast
  then show "\<exists>obs tp. tp_run ops tp0 = Inr (obs, tp) \<and>
              0 \<le> queue_size tp \<and> queue_size tp \<le> MAX_QUEUE_SIZE"
    by (auto simp: pool_inv_def)
next
  fix c
  assume "run es (boot n tp0) = Inr c"
  with assms(2,3) have "cinv c" by (rule cinv_reachable)
  then show "0 \<le> queue_size (pool c)" "queue_size (pool c) \<le> MAX_QUEUE_SIZE"
    by (simp_all add: cinv_def pool_inv_def)
qed

theorem queue_length_within_capacity_witness:
  "int (length (buffer zero_buffer)) = BUFFER_SIZE \<and>
   thread_pool_init (Some zero_block) = Some zero_block \<and>
   int (length (queue zero_block)) = MAX_QUEUE_SIZE \<and>
   (\<exists>s. pc_run [Insert 1, Insert 2, Insert 3, Insert 4, Insert 5, Insert 6, Remove]
           (pc_start zero_buffer) = Inr s \<and>
        0 \<le> count (buf s) \<and> count (buf s) \<le> BUFFER_SIZE) \<and>
   (\<exists>obs tp. tp_run [Pop, Push 1 10, Push 2 20, Pop, Close, Push 3 30, Pop, Pop] zero_block
                = Inr (obs, tp) \<and>
        0 \<le> queue_size tp \<and> queue_size tp \<le> MAX_QUEUE_SIZE) \<and>
   (\<exists>c. run [Call 0 Start, Step 0 4, Call 0 (Add_work 7 7), Step 0 0] (boot 1 zero_block)
           = Inr c \<and>
        queue_size (pool c) = 1 \<and>
        0 \<le> queue_size (pool c) \<and> queue_size (pool c) \<le> MAX_QUEUE_SIZE)"
proof -
  note bound = queue_length_within_capacity
    [OF zero_buffer_length zero_block_init zero_block_length]
  let ?c = "(boot 1 zero_block)
              \<lparr>pool := one_job_pool\<lparr>worker_threads := [Some 1, Some 2, Some 3, Some 4]\<rparr>,
               threads := [Idle, In_worker, In_worker, In_worker, In_worker],
               add_work_true := [\<lparr>func = 7, argument = 7\<rparr>],
               start_returns := [True]\<rparr>"
  have r: "run [Call 0 Start, Step 0 4, Call 0 (Add_work 7 7), Step 0 0] (boot 1 zero_block)
           = Inr ?c"
    by (simp add: eval_threads one_job_pool_def)
  have one: "queue_size (pool ?c) = 1" by (simp add: one_job_pool_def)
  from bound [THEN conjunct2, THEN conjunct2, THEN spec, THEN mp, OF r]
  have "0 \<le> queue_size (pool ?c) \<and> queue_size (pool ?c) \<le> MAX_QUEUE_SIZE" .
  with r one have threads_part:
    "\<exists>c. run [Call 0 Start, Step 0 4, Call 0 (Add_work 7 7), Step 0 0] (boot 1 zero_block)
           = Inr c \<and>
        queue_size (pool c) = 1 \<and>
        0 \<le> queue_size (pool c) \<and> queue_size (pool c) \<le> MAX_QUEUE_SIZE"
    by blast
  show ?thesis
    by (intro conjI zero_buffer_length zero_block_init zero_block_length
        bound [THEN conjunct1] bound [THEN conjunct2, THEN conjunct1] threads_part)
qed


subsection \<open>C2: first in, first out\<close>

text \<open>
  C2. In every schedule of insertions and removals on the bounded buffer, the items removed
  so far are the first items inserted, in the order of insertion. In particular, inserting
  the items of a list that fits the buffer and then removing as many items completes
  without blocking and returns the list as inserted.
\<close>

theorem removal_order_is_insertion_order:
  assumes "int (length (buffer mem)) = BUFFER_SIZE"
  shows "(\<exists>s. pc_run evs (pc_start mem) = Inr s \<and>
              removed s = take (length (removed s)) (inserted s)) \<and>
         (int (length xs) \<le> BUFFER_SIZE \<longrightarrow>
            (\<exists>s. pc_run (map Insert xs @ replicate (length xs) Remove) (pc_start mem) = Inr s \<and>
                 inserted s = xs \<and> removed s = xs))"
proof (intro conjI impI)
  from pc_run_inv [OF pc_start_inv [OF assms], of evs] obtain s where
    "pc_run evs (pc_start mem) = Inr s" "pc_inv s" by blast
  then show "\<exists>s. pc_run evs (pc_start mem) = Inr s \<and>
              removed s = take (length (removed s)) (inserted s)"
    by (auto simp: pc_inv_def)
next
  assume small: "int (length xs) \<le> BUFFER_SIZE"
  have start: "pc_inv (pc_start mem)" using assms by (rule pc_start_inv)
  from pc_run_inserts [OF start, of xs] small obtain s1 where
    s1: "pc_run (map Insert xs) (pc_start mem) = Inr s1" "pc_inv s1" "inserted s1 = xs"
      "removed s1 = []" "count (buf s1) = int (length xs)"
    by (auto simp: pc_start_fields)
  from pc_run_removes [OF s1(2), of "length xs"] s1 obtain s2 where
    s2: "pc_run (replicate (length xs) Remove) s1 = Inr s2" "pc_inv s2" "inserted s2 = xs"
      "length (removed s2) = length xs"
    by auto
  from s2(2,3) have "xs = removed s2 @ buffer_items (buf s2)" by (simp add: pc_inv_def)
  with s2(4) have "removed s2 = xs"
    by (metis append_eq_append_conv append_Nil2 length_append add_cancel_right_right length_0_conv)
  with s1(1) s2(1,3) show "\<exists>s. pc_run (map Insert xs @ replicate (length xs) Remove)
      (pc_start mem) = Inr s \<and> inserted s = xs \<and> removed s = xs"
    by (simp add: pc_run_append)
qed

theorem removal_order_is_insertion_order_witness:
  "int (length (buffer zero_buffer)) = BUFFER_SIZE \<and>
   (\<exists>s. pc_run [Insert 7, Remove, Remove, Insert 8, Insert 9, Remove] (pc_start zero_buffer)
           = Inr s \<and> removed s = take (length (removed s)) (inserted s)) \<and>
   int (length [10, 20, 30 :: int]) \<le> BUFFER_SIZE \<and>
   (\<exists>s. pc_run (map Insert [10, 20, 30] @ replicate (length [10, 20, 30 :: int]) Remove)
           (pc_start zero_buffer) = Inr s \<and>
        inserted s = [10, 20, 30] \<and> removed s = [10, 20, 30])"
proof -
  have small: "int (length [10, 20, 30 :: int]) \<le> BUFFER_SIZE"
    by (simp add: BUFFER_SIZE_def)
  note fifo = removal_order_is_insertion_order [OF zero_buffer_length]
  show ?thesis
    by (intro conjI zero_buffer_length small fifo [THEN conjunct1]
        fifo [THEN conjunct2, THEN mp, OF small])
qed


subsection \<open>C3: closing loses no item\<close>

text \<open>
  C3. Take any schedule of pushes, pops and closes on the queue of a fresh pool, with \<open>M\<close>
  pushes accepted and \<open>P\<close> items popped so far. If the queue is then closed, the next
  \<open>M - P\<close> pops return the remaining items in the order they were pushed, and every
  pop after them reports that the queue is closed. With no pop before the close these are
  exactly the \<open>M\<close> items pushed.
\<close>

theorem close_keeps_queued_items:
  assumes "thread_pool_init (Some blk) = Some tp0" "int (length (queue blk)) = MAX_QUEUE_SIZE"
    and "tp_run evs tp0 = Inr (obs, tp)"
  shows "\<exists>tp'. tp_run (Close # replicate (length (pushed_items obs) - length (popped_items obs)
                                          + k) Pop) tp
               = Inr (Close_done # map Popped (drop (length (popped_items obs)) (pushed_items obs))
                        @ replicate k Pop_closed, tp')"
proof -
  note hist = tp_run_history [OF assms]
  let ?tp = "thread_pool_shutdown_cs tp"
  have items: "drop (length (popped_items obs)) (pushed_items obs) = queue_items tp"
    and len: "length (pushed_items obs) - length (popped_items obs) = length (queue_items tp)"
    using hist(2) by simp_all
  from tp_drain [of ?tp k] hist(1) obtain tp' where
    "tp_run (replicate (length (queue_items tp) + k) Pop) ?tp
       = Inr (map Popped (queue_items tp) @ replicate k Pop_closed, tp')"
    by (auto simp: shutdown_cs_inv)
  then show ?thesis by (simp add: items len tp_step_def)
qed

theorem close_keeps_queued_items_witness:
  "thread_pool_init (Some zero_block) = Some zero_block \<and>
   int (length (queue zero_block)) = MAX_QUEUE_SIZE \<and>
   tp_run [Push 1 10, Push 2 20, Pop, Push 3 30] zero_block
     = Inr ([Pushed \<lparr>func = 1, argument = 10\<rparr>, Pushed \<lparr>func = 2, argument = 20\<rparr>,
             Popped \<lparr>func = 1, argument = 10\<rparr>, Pushed \<lparr>func = 3, argument = 30\<rparr>],
            zero_block\<lparr>queue := (queue zero_block)
                          [0 := \<lparr>func = 1, argument = 10\<rparr>,
                           1 := \<lparr>func = 2, argument = 20\<rparr>,
                           2 := \<lparr>func = 3, argument = 30\<rparr>],
                        queue_size := 2, head := 1, tail := 3\<rparr>) \<and>
   (\<exists>tp'. tp_run (Close # replicate 4 Pop)
            (zero_block\<lparr>queue := (queue zero_block)
                          [0 := \<lparr>func = 1, argument = 10\<rparr>,
                           1 := \<lparr>func = 2, argument = 20\<rparr>,
                           2 := \<lparr>func = 3, argument = 30\<rparr>],
                        queue_size := 2, head := 1, tail := 3\<rparr>)
          = Inr ([Close_done, Popped \<lparr>func = 2, argument = 20\<rparr>,
                  Popped \<lparr>func = 3, argument = 30\<rparr>, Pop_closed, Pop_closed], tp'))"
proof -
  have sample: "tp_run [Push 1 10, Push 2 20, Pop, Push 3 30] zero_block
     = Inr ([Pushed \<lparr>func = 1, argument = 10\<rparr>, Pushed \<lparr>func = 2, argument = 20\<rparr>,
             Popped \<lparr>func = 1, argument = 10\<rparr>, Pushed \<lparr>func = 3, argument = 30\<rparr>],
            zero_block\<lparr>queue := (queue zero_block)
                          [0 := \<lparr>func = 1, argument = 10\<rparr>,
                           1 := \<lparr>func = 2, argument = 20\<rparr>,
                           2 := \<lparr>func = 3, argument = 30\<rparr>],
                        queue_size := 2, head := 1, tail := 3\<rparr>)"
    by (simp add: eval_queue zero_block_def)
  from close_keeps_queued_items [OF zero_block_init zero_block_length sample, of 2]
  have "\<exists>tp'. tp_run (Close # replicate 4 Pop)
            (zero_block\<lparr>queue := (queue zero_block)
                          [0 := \<lparr>func = 1, argument = 10\<rparr>,
                           1 := \<lparr>func = 2, argument = 20\<rparr>,
                           2 := \<lparr>func = 3, argument = 30\<rparr>],
                        queue_size := 2, head := 1, tail := 3\<rparr>)
          = Inr ([Close_done, Popped \<lparr>func = 2, argument = 20\<rparr>,
                  Popped \<lparr>func = 3, argument = 30\<rparr>, Pop_closed, Pop_closed], tp')"
    by (simp add: numeral_eq_Suc)
  with zero_block_init zero_block_length sample show ?thesis by blast
qed


subsection \<open>C4: every accepted job is executed exactly once\<close>

text \<open>
  C4. In every state the process reaches from a fresh pool, under any schedule of calls,
  thread blocks and spurious wakeups, the work items for which \<^verbatim>\<open>thread_pool_add_work\<close>
  returned true are, counted with multiplicity, exactly those already executed, those held
  by a worker that is about to execute them, and those in the queue. When all workers have
  returned, as they have when \<^verbatim>\<open>thread_pool_shutdown\<close> returns, the executed items are
  exactly the accepted ones: none twice, none dropped, whatever the number of workers.
\<close>

theorem accepted_jobs_run_exactly_once:
  assumes "thread_pool_init (Some blk) = Some tp0" "int (length (queue blk)) = MAX_QUEUE_SIZE"
    and "run evs (boot n tp0) = Inr c"
  shows "mset (add_work_true c)
           = mset (executed c) + mset (in_flight (threads c)) + mset (queue_items (pool c)) \<and>
         (workers_done c \<longrightarrow> mset (executed c) = mset (add_work_true c))"
proof (intro conjI impI)
  have inv: "cinv c" using assms by (rule cinv_reachable)
  then show split: "mset (add_work_true c)
      = mset (executed c) + mset (in_flight (threads c)) + mset (queue_items (pool c))"
    by (simp add: cinv_def)
  assume fin: "workers_done c"
  then have "Exit_worker \<in> set (threads c)" by (simp add: workers_done_def)
  with inv have "queue_size (pool c) = 0" by (simp add: cinv_def)
  then have "length (queue_items (pool c)) = 0" by (simp add: queue_items_length)
  then have "queue_items (pool c) = []" by simp
  with split workers_done_in_flight [OF fin]
  show "mset (executed c) = mset (add_work_true c)" by simp
qed

theorem accepted_jobs_run_exactly_once_witness:
  "thread_pool_init (Some zero_block) = Some zero_block \<and>
   int (length (queue zero_block)) = MAX_QUEUE_SIZE \<and>
   (\<exists>c. run [Call 0 Start, Step 0 4,
              Call 0 (Add_work 1 10), Step 0 0, Step 1 0,
              Call 0 (Add_work 2 20), Step 0 0,
              Call 0 (Shutdown Pool_ptr), Step 0 0,
              Step 1 0, Step 2 0, Step 2 0,
              Step 1 0, Step 2 0, Step 3 0, Step 4 0,
              Step 0 0, Step 0 0, Step 0 0, Step 0 0, Step 0 0] (boot 1 zero_block) = Inr c \<and>
        workers_done c \<and>
        add_work_true c = [\<lparr>func = 1, argument = 10\<rparr>, \<lparr>func = 2, argument = 20\<rparr>] \<and>
        mset (executed c) = mset (add_work_true c))"
proof -
  let ?jobs = "[\<lparr>func = 1, argument = 10\<rparr>, \<lparr>func = 2, argument = 20\<rparr>]"
  let ?c = "\<lparr>pool = \<lparr>queue = (replicate 100 \<lparr>func = 0, argument = 0\<rparr>)
                               [0 := \<lparr>func = 1, argument = 10\<rparr>,
                                1 := \<lparr>func = 2, argument = 20\<rparr>],
                    queue_size = 0, head = 2, tail = 2,
                    worker_threads = [Some 1, Some 2, Some 3, Some 4], shutdown = True\<rparr>,
            freed = True, lock_deleted = True,
            threads = [Idle, Exit_worker, Exit_worker, Exit_worker, Exit_worker],
            closed_handles = [1, 2, 3, 4], add_work_true = ?jobs, add_work_false = [],
            start_returns = [True], executed = ?jobs\<rparr>"
  have r: "run [Call 0 Start, Step 0 4,
              Call 0 (Add_work 1 10), Step 0 0, Step 1 0,
              Call 0 (Add_work 2 20), Step 0 0,
              Call 0 (Shutdown Pool_ptr), Step 0 0,
              Step 1 0, Step 2 0, Step 2 0,
              Step 1 0, Step 2 0, Step 3 0, Step 4 0,
              Step 0 0, Step 0 0, Step 0 0, Step 0 0, Step 0 0] (boot 1 zero_block) = Inr ?c"
    by (simp add: eval_threads)
  have d: "workers_done ?c" by (simp add: workers_done_def)
  from accepted_jobs_run_exactly_once [OF zero_block_init zero_block_length r] d
  have "mset (executed ?c) = mset (add_work_true ?c)" by blast
  with r d zero_block_init zero_block_length show ?thesis by auto
qed


subsection \<open>C5: a producer asleep when the pool shuts down\<close>

text \<open>
  C5, at the failing input. The schedule \<open>jam_events\<close> leads a fresh process into the
  state \<open>jammed\<close>: the queue is full and thread 1 sleeps in
  \<^verbatim>\<open>thread_pool_add_work\<close>. Thread 0 runs \<^verbatim>\<open>thread_pool_shutdown\<close> up to the wait for
  the first worker; thread 1 is then still asleep and its call has not returned. It
  returns false only after a worker (thread 2) has finished its item and dequeued the
  next one, which signals \<^verbatim>\<open>queue_not_full\<close>.
\<close>

theorem pusher_asleep_after_shutdown:
  "run jam_events (boot 2 zero_block) = Inr jammed \<and>
   run [Call 0 (Shutdown Pool_ptr), Step 0 0, Step 1 0] jammed
     = Inr (jammed\<lparr>pool := (pool jammed)\<lparr>shutdown := True\<rparr>,
                   threads := (threads jammed)[0 := Join_shutdown 0]\<rparr>) \<and>
   threads jammed ! 1 = Sleep_add_work 9 9 \<and>
   run [Call 0 (Shutdown Pool_ptr), Step 0 0, Step 2 0, Step 2 0, Step 1 0] jammed
     = Inr (jammed\<lparr>pool := (pool jammed)\<lparr>shutdown := True, head := 5, queue_size := 99\<rparr>,
                   threads := (threads jammed)
                     [0 := Join_shutdown 0, 1 := Idle,
                      2 := Run_worker \<lparr>func = 0, argument = 0\<rparr>],
                   add_work_false := [\<lparr>func = 9, argument = 9\<rparr>],
                   executed := [\<lparr>func = 0, argument = 0\<rparr>]\<rparr>)"
  by (intro conjI jammed_reachable) (simp_all add: eval_threads jammed_def)


subsection \<open>C6: whom the shutdown wakes\<close>

text \<open>
  C6, at the failing input. The schedule \<open>jam_events\<close> leads a fresh process into the
  state \<open>jammed\<close>, with the queue full and thread 1 asleep on \<^verbatim>\<open>queue_not_full\<close>.
  There the critical section of \<^verbatim>\<open>thread_pool_shutdown\<close> changes the flag
  and the state of its caller only: thread 1 stays asleep. Workers asleep on
  \<^verbatim>\<open>queue_not_empty\<close> (threads 1 and 2 of the second run) are all woken.
\<close>

theorem shutdown_wakes_workers_only:
  "run jam_events (boot 2 zero_block) = Inr jammed \<and>
   run [Call 0 (Shutdown Pool_ptr), Step 0 0] jammed
     = Inr (jammed\<lparr>pool := (pool jammed)\<lparr>shutdown := True\<rparr>,
                   threads := [Join_shutdown 0, Sleep_add_work 9 9,
                               Run_worker \<lparr>func = 0, argument = 0\<rparr>,
                               Run_worker \<lparr>func = 0, argument = 0\<rparr>,
                               Run_worker \<lparr>func = 0, argument = 0\<rparr>,
                               Run_worker \<lparr>func = 0, argument = 0\<rparr>]\<rparr>) \<and>
   run [Call 0 Start, Step 0 4, Step 1 0, Step 2 0] (boot 1 zero_block)
     = Inr ((boot 1 zero_block)
              \<lparr>pool := zero_block\<lparr>worker_threads := [Some 1, Some 2, Some 3, Some 4]\<rparr>,
               threads := [Idle, Sleep_worker, Sleep_worker, In_worker, In_worker],
               start_returns := [True]\<rparr>) \<and>
   run [Call 0 Start, Step 0 4, Step 1 0, Step 2 0, Call 0 (Shutdown Pool_ptr), Step 0 0]
       (boot 1 zero_block)
     = Inr ((boot 1 zero_block)
              \<lparr>pool := zero_block\<lparr>worker_threads := [Some 1, Some 2, Some 3, Some 4],
                                   shutdown := True\<rparr>,
               threads := [Join_shutdown 0, In_worker, In_worker, In_worker, In_worker],
               start_returns := [True]\<rparr>)"
  by (intro conjI jammed_reachable) (simp_all add: eval_threads jammed_def)


subsection \<open>C7: shutting down twice\<close>

text \<open>
  C7 as stated fails. Thread 0 starts the pool and shuts it down; the four workers return,
  are joined and closed, and the pool is freed. A second call of
  \<^verbatim>\<open>thread_pool_shutdown\<close> with the same pointer passes the \<^verbatim>\<open>NULL\<close> test and enters
  the critical section of the freed pool.
\<close>

theorem second_shutdown_counterexample:
  "run [Call 0 Start, Step 0 4, Call 0 (Shutdown Pool_ptr), Step 0 0,
        Step 1 0, Step 2 0, Step 3 0, Step 4 0,
        Step 0 0, Step 0 0, Step 0 0, Step 0 0, Step 0 0] (boot 1 zero_block)
     = Inr ((boot 1 zero_block)
              \<lparr>pool := zero_block\<lparr>worker_threads := [Some 1, Some 2, Some 3, Some 4],
                                   shutdown := True\<rparr>,
               freed := True, lock_deleted := True,
               threads := [Idle, Exit_worker, Exit_worker, Exit_worker, Exit_worker],
               closed_handles := [1, 2, 3, 4], start_returns := [True]\<rparr>) \<and>
   run [Call 0 Start, Step 0 4, Call 0 (Shutdown Pool_ptr), Step 0 0,
        Step 1 0, Step 2 0, Step 3 0, Step 4 0,
        Step 0 0, Step 0 0, Step 0 0, Step 0 0, Step 0 0,
        Call 0 (Shutdown Pool_ptr), Step 0 0] (boot 1 zero_block)
     = Inl UseAfterFree"
  by (simp add: eval_threads)

text \<open>
  C7 as amended. A call of \<^verbatim>\<open>thread_pool_shutdown\<close> with \<^verbatim>\<open>NULL\<close>, which is what
  \<^verbatim>\<open>thread_pool_demo\<close> leaves in \<^verbatim>\<open>g_pool\<close> after the shutdown, returns at once: the
  state of the process is unchanged, no handle is joined or closed, nothing faults.
\<close>

theorem shutdown_null_is_noop: "step (Call t (Shutdown NULL)) c = Inr c"
  by (simp add: step_def call_block_def)


subsection \<open>C8: starting twice\<close>

text \<open>
  C8 as stated fails. After a first \<^verbatim>\<open>thread_pool_start\<close> the process has four workers;
  a second call returns true as well, adds four more workers and overwrites the four
  handles.
\<close>

theorem second_start_counterexample:
  "run [Call 0 Start, Step 0 4] (boot 1 zero_block)
     = Inr ((boot 1 zero_block)
              \<lparr>pool := zero_block\<lparr>worker_threads := [Some 1, Some 2, Some 3, Some 4]\<rparr>,
               threads := [Idle, In_worker, In_worker, In_worker, In_worker],
               start_returns := [True]\<rparr>) \<and>
   run [Call 0 Start, Step 0 4, Call 0 Start, Step 0 4] (boot 1 zero_block)
     = Inr ((boot 1 zero_block)
              \<lparr>pool := zero_block\<lparr>worker_threads := [Some 5, Some 6, Some 7, Some 8]\<rparr>,
               threads := [Idle, In_worker, In_worker, In_worker, In_worker,
                           In_worker, In_worker, In_worker, In_worker],
               start_returns := [True, True]\<rparr>)"
  by (simp add: eval_threads)

text \<open>
  C8 as amended. \<^verbatim>\<open>thread_pool_start\<close> does not look at whether the pool was started:
  on a live pool, whenever every \<^verbatim>\<open>CreateThread\<close> succeeds, the call returns true, adds
  \<^verbatim>\<open>THREAD_POOL_SIZE\<close> workers to the threads there were, and stores their handles in
  place of the handles stored before.
\<close>

theorem start_always_spawns:
  assumes "t < length (threads c)" "threads c ! t = In_start" "\<not> freed c"
    and "THREAD_POOL_SIZE \<le> k" "length (worker_threads (pool c)) = THREAD_POOL_SIZE"
  shows "\<exists>c'. step (Step t k) c = Inr c' \<and>
           start_returns c' = start_returns c @ [True] \<and>
           threads c' = (threads c)[t := Idle] @ replicate THREAD_POOL_SIZE In_worker \<and>
           worker_threads (pool c')
             = map Some [length (threads c)..<length (threads c) + THREAD_POOL_SIZE]"
proof -
  from assms(5) obtain h0 h1 h2 h3 where hs: "worker_threads (pool c) = [h0, h1, h2, h3]"
    by (auto simp: THREAD_POOL_SIZE_def numeral_eq_Suc length_Suc_conv)
  have k: "0 < k" "1 < k" "2 < k" "3 < k" using assms(4) by (simp_all add: THREAD_POOL_SIZE_def)
  have "[0..<THREAD_POOL_SIZE] = [0, 1, 2, 3]"
    by (simp add: THREAD_POOL_SIZE_def upt_rec)
  then have cw: "create_workers [0..<THREAD_POOL_SIZE] k c
     = (None, c\<lparr>pool := (pool c)\<lparr>worker_threads :=
                    [Some (length (threads c)), Some (length (threads c) + 1),
                     Some (length (threads c) + 2), Some (length (threads c) + 3)]\<rparr>,
                  threads := threads c @ [In_worker, In_worker, In_worker, In_worker]\<rparr>)"
    using k by (simp add: hs)
  have "[length (threads c)..<length (threads c) + 4]
        = [length (threads c), length (threads c) + 1, length (threads c) + 2,
           length (threads c) + 3]"
    by (simp add: upt_rec)
  with cw assms(1,2,3) show ?thesis
    by (simp add: step_def thread_step_def start_block_def THREAD_POOL_SIZE_def
        list_update_append numeral_eq_Suc)
qed

theorem start_always_spawns_witness:
  "0 < length (threads restarting) \<and> threads restarting ! 0 = In_start \<and>
   \<not> freed restarting \<and> THREAD_POOL_SIZE \<le> 4 \<and>
   length (worker_threads (pool restarting)) = THREAD_POOL_SIZE \<and>
   (\<exists>c'. step (Step 0 4) restarting = Inr c' \<and>
        start_returns c' = [True, True] \<and>
        threads c' = [Idle, In_worker, In_worker, In_worker, In_worker,
                      In_worker, In_worker, In_worker, In_worker] \<and>
        worker_threads (pool c') = [Some 5, Some 6, Some 7, Some 8])"
proof -
  have h: "0 < length (threads restarting)" "threads restarting ! 0 = In_start"
    "\<not> freed restarting" "THREAD_POOL_SIZE \<le> 4"
    "length (worker_threads (pool restarting)) = THREAD_POOL_SIZE"
    by (simp_all add: restarting_def THREAD_POOL_SIZE_def zero_block_def)
  from start_always_spawns [OF h] obtain c' where
    "step (Step 0 4) restarting = Inr c'"
    "start_returns c' = start_returns restarting @ [True]"
    "threads c' = (threads restarting)[0 := Idle] @ replicate THREAD_POOL_SIZE In_worker"
    "worker_threads (pool c')
       = map Some [length (threads restarting)..<length (threads restarting) + THREAD_POOL_SIZE]"
    by blast
  then have "step (Step 0 4) restarting = Inr c' \<and>
        start_returns c' = [True, True] \<and>
        threads c' = [Idle, In_worker, In_worker, In_worker, In_worker,
                      In_worker, In_worker, In_worker, In_worker] \<and>
        worker_threads (pool c') = [Some 5, Some 6, Some 7, Some 8]"
    by (simp add: restarting_def THREAD_POOL_SIZE_def upt_rec numeral_eq_Suc)
  with h show ?thesis by blast
qed


subsection \<open>C9: the one mode of shutdown\<close>

text \<open>
  C9 as stated fails: \<^verbatim>\<open>thread_pool_shutdown\<close> takes the pool and returns nothing, and
  no worker abandons a queued item. Here one item is still queued when thread 0 calls the
  shutdown; worker 1 dequeues and executes it afterwards, and when the shutdown has freed
  the pool the item has been executed.
\<close>

theorem shutdown_drops_no_job_counterexample:
  "run [Call 0 Start, Step 0 4, Call 0 (Add_work 7 7), Step 0 0,
        Call 0 (Shutdown Pool_ptr), Step 0 0] (boot 1 zero_block)
     = Inr ((boot 1 zero_block)
              \<lparr>pool := one_job_pool\<lparr>worker_threads := [Some 1, Some 2, Some 3, Some 4],
                                      shutdown := True\<rparr>,
               threads := [Join_shutdown 0, In_worker, In_worker, In_worker, In_worker],
               add_work_true := [\<lparr>func = 7, argument = 7\<rparr>],
               start_returns := [True]\<rparr>) \<and>
   run [Call 0 Start, Step 0 4, Call 0 (Add_work 7 7), Step 0 0,
        Call 0 (Shutdown Pool_ptr), Step 0 0,
        Step 1 0, Step 1 0, Step 1 0, Step 2 0, Step 3 0, Step 4 0,
        Step 0 0, Step 0 0, Step 0 0, Step 0 0, Step 0 0] (boot 1 zero_block)
     = Inr ((boot 1 zero_block)
              \<lparr>pool := one_job_pool\<lparr>queue_size := 0, head := 1,
                                      worker_threads := [Some 1, Some 2, Some 3, Some 4],
                                      shutdown := True\<rparr>,
               freed := True, lock_deleted := True,
               threads := [Idle, Exit_worker, Exit_worker, Exit_worker, Exit_worker],
               closed_handles := [1, 2, 3, 4],
               add_work_true := [\<lparr>func = 7, argument = 7\<rparr>],
               start_returns := [True],
               executed := [\<lparr>func = 7, argument = 7\<rparr>]\<rparr>)"
  by (simp add: eval_threads one_job_pool_def)

text \<open>
  C9 as amended. The shutdown has one mode, the draining one: its critical section leaves
  the queued items as they are, and afterwards a worker leaves its loop exactly when the
  queue is empty; while an item is queued the worker takes the oldest one.
\<close>

theorem shutdown_drains_the_queue:
  assumes "pool_inv tp"
  shows "queue_items (thread_pool_shutdown_cs tp) = queue_items tp \<and>
         ((\<exists>tp'. worker_thread_cs (thread_pool_shutdown_cs tp) = Inr (Completed (Exit_loop, tp')))
            \<longleftrightarrow> queue_size tp = 0) \<and>
         (queue_size tp \<noteq> 0 \<longrightarrow>
            (\<exists>tp'. worker_thread_cs (thread_pool_shutdown_cs tp)
                     = Inr (Completed (Execute (hd (queue_items tp)), tp')) \<and>
                   queue_items tp' = tl (queue_items tp)))"
proof -
  let ?tp = "thread_pool_shutdown_cs tp"
  have inv: "pool_inv ?tp" and items: "queue_items ?tp = queue_items tp"
    and closed: "shutdown ?tp" and size: "queue_size ?tp = queue_size tp"
    using assms by (simp_all add: shutdown_cs_inv) (simp add: thread_pool_shutdown_cs_def)
  show ?thesis
  proof (cases "queue_size tp = 0")
    case True
    with closed size show ?thesis by (simp add: items worker_exits)
  next
    case False
    with size have "queue_size ?tp \<noteq> 0" by simp
    from worker_takes [OF inv this] obtain work tp' where
      "worker_thread_cs ?tp = Inr (Completed (Execute work, tp'))"
      "queue_items ?tp = work # queue_items tp'"
      by blast
    moreover from this items
    have "hd (queue_items tp) = work" "tl (queue_items tp) = queue_items tp'"
      by simp_all
    ultimately show ?thesis using False items by simp
  qed
qed

theorem shutdown_drains_the_queue_witness:
  "pool_inv one_job_pool \<and>
   queue_items (thread_pool_shutdown_cs one_job_pool) = [\<lparr>func = 7, argument = 7\<rparr>] \<and>
   (\<exists>tp'. worker_thread_cs (thread_pool_shutdown_cs one_job_pool)
            = Inr (Completed (Execute \<lparr>func = 7, argument = 7\<rparr>, tp')) \<and>
          queue_items tp' = [])"
proof -
  have inv: "pool_inv one_job_pool"
    by (simp add: pool_inv_def one_job_pool_def zero_block_def MAX_QUEUE_SIZE_def)
  have items: "queue_items one_job_pool = [\<lparr>func = 7, argument = 7\<rparr>]"
    by (simp add: queue_items_def ring_contents_def one_job_pool_def zero_block_def
        MAX_QUEUE_SIZE_def)
  have size: "queue_size one_job_pool \<noteq> 0" by (simp add: one_job_pool_def)
  note drains = shutdown_drains_the_queue [OF inv]
  from drains [THEN conjunct2, THEN conjunct2, THEN mp, OF size] items
  have "\<exists>tp'. worker_thread_cs (thread_pool_shutdown_cs one_job_pool)
            = Inr (Completed (Execute \<lparr>func = 7, argument = 7\<rparr>, tp')) \<and>
          queue_items tp' = []"
    by simp
  moreover from drains [THEN conjunct1] items
  have "queue_items (thread_pool_shutdown_cs one_job_pool) = [\<lparr>func = 7, argument = 7\<rparr>]"
    by simp
  ultimately show ?thesis using inv by blast
qed


subsection \<open>C10: the indices stay inside the array\<close>

text \<open>
  C10. For every schedule of insertions and removals on the bounded buffer and every
  schedule of pushes, pops and closes on the queue of the pool, no block faults (no array
  access is out of bounds), the insertion index and the removal index are at least 0 and
  below the capacity, the array keeps its declared length, and the insertion index is the
  removal index plus the length, modulo the capacity.
\<close>

theorem indices_stay_in_bounds:
  assumes "int (length (buffer mem)) = BUFFER_SIZE"
    and "thread_pool_init (Some blk) = Some tp0" "int (length (queue blk)) = MAX_QUEUE_SIZE"
  shows "(\<exists>s. pc_run evs (pc_start mem) = Inr s \<and>
              int (length (buffer (buf s))) = BUFFER_SIZE \<and>
              0 \<le> in_index (buf s) \<and> in_index (buf s) < BUFFER_SIZE \<and>
              0 \<le> out (buf s) \<and> out (buf s) < BUFFER_SIZE \<and>
              in_index (buf s) = (out (buf s) + count (buf s)) mod BUFFER_SIZE) \<and>
         (\<exists>obs tp. tp_run ops tp0 = Inr (obs, tp) \<and>
              int (length (queue tp)) = MAX_QUEUE_SIZE \<and>
              0 \<le> tail tp \<and> tail tp < MAX_QUEUE_SIZE \<and>
              0 \<le> head tp \<and> head tp < MAX_QUEUE_SIZE \<and>
              tail tp = (head tp + queue_size tp) mod MAX_QUEUE_SIZE)"
proof
  from pc_run_inv [OF pc_start_inv [OF assms(1)], of evs] obtain s where
    "pc_run evs (pc_start mem) = Inr s" "buffer_inv (buf s)"
    by (auto simp: pc_inv_def)
  then show "\<exists>s. pc_run evs (pc_start mem) = Inr s \<and>
              int (length (buffer (buf s))) = BUFFER_SIZE \<and>
              0 \<le> in_index (buf s) \<and> in_index (buf s) < BUFFER_SIZE \<and>
              0 \<le> out (buf s) \<and> out (buf s) < BUFFER_SIZE \<and>
              in_index (buf s) = (out (buf s) + count (buf s)) mod BUFFER_SIZE"
    unfolding buffer_inv_def by blast
next
  have "pool_inv tp0" using assms(2,3) by (rule thread_pool_init_inv)
  from tp_run_inv [OF this, of ops] obtain obs tp where
    "tp_run ops tp0 = Inr (obs, tp)" "pool_inv tp" by blast
  then show "\<exists>obs tp. tp_run ops tp0 = Inr (obs, tp) \<and>
              int (length (queue tp)) = MAX_QUEUE_SIZE \<and>
              0 \<le> tail tp \<and> tail tp < MAX_QUEUE_SIZE \<and>
              0 \<le> head tp \<and> head tp < MAX_QUEUE_SIZE \<and>
              tail tp = (head tp + queue_size tp) mod MAX_QUEUE_SIZE"
    unfolding pool_inv_def by blast
qed

theorem indices_stay_in_bounds_witness:
  "int (length (buffer zero_buffer)) = BUFFER_SIZE \<and>
   thread_pool_init (Some zero_block) = Some zero_block \<and>
   int (length (queue zero_block)) = MAX_QUEUE_SIZE \<and>
   (\<exists>s. pc_run [Insert 1, Insert 2, Remove, Insert 3, Insert 4, Insert 5, Insert 6, Remove,
                 Remove, Insert 7, Insert 8] (pc_start zero_buffer) = Inr s \<and>
        int (length (buffer (buf s))) = BUFFER_SIZE \<and>
        0 \<le> in_index (buf s) \<and> in_index (buf s) < BUFFER_SIZE \<and>
        0 \<le> out (buf s) \<and> out (buf s) < BUFFER_SIZE \<and>
        in_index (buf s) = (out (buf s) + count (buf s)) mod BUFFER_SIZE) \<and>
   (\<exists>obs tp. tp_run [Push 1 10, Pop, Pop, Push 2 20, Push 3 30, Pop, Close, Pop, Pop] zero_block
                = Inr (obs, tp) \<and>
        int (length (queue tp)) = MAX_QUEUE_SIZE \<and>
        0 \<le> tail tp \<and> tail tp < MAX_QUEUE_SIZE \<and>
        0 \<le> head tp \<and> head tp < MAX_QUEUE_SIZE \<and>
        tail tp = (head tp + queue_size tp) mod MAX_QUEUE_SIZE)"
  by (intro conjI zero_buffer_length zero_block_init zero_block_length
      indices_stay_in_bounds [OF zero_buffer_length zero_block_init zero_block_length,
        THEN conjunct1]
      indices_stay_in_bounds [OF zero_buffer_length zero_block_init zero_block_length,
        THEN conjunct2])

end
